theory Spec2Isabelle
  imports Complex_Main "HOL-Library.Word"
begin

section \<open>Python values, errors and sequences\<close>

text \<open>
  The exceptions that \<^verbatim>\<open>render\<close> (src/render.py) and its two worker functions can raise.
  \<open>QueueEmpty\<close> is \<^verbatim>\<open>queue.Empty\<close>; \<open>AcceleratorError\<close> stands for whatever the opaque
  generator raises.
\<close>

datatype error =
    QueueEmpty | AssertionError | RuntimeError | NameError | KeyError | TypeError
  | AttributeError | ValueError | IndexError | ZeroDivisionError | AcceleratorError

text \<open>The few Python objects whose truth value the code tests.\<close>

datatype pyval = PyBool bool | PyStr string | PyTuple "pyval list"

fun truthy :: "pyval \<Rightarrow> bool" where
  "truthy (PyBool b) = b"
| "truthy (PyStr s) = (s \<noteq> [])"
| "truthy (PyTuple vs) = (vs \<noteq> [])"

text \<open>\<^verbatim>\<open>assert v\<close>: raises exactly when \<open>v\<close> is falsy.\<close>

definition py_assert :: "pyval \<Rightarrow> error + unit" where
  "py_assert v = (if truthy v then Inr () else Inl AssertionError)"

text \<open>\<^verbatim>\<open>xs[n : n + b]\<close> for \<open>0 \<le> n\<close> and \<open>0 < b\<close>: Python clips a slice to the sequence.\<close>

definition py_slice :: "nat \<Rightarrow> nat \<Rightarrow> 'a list \<Rightarrow> 'a list" where
  "py_slice n b xs = take b (drop n xs)"

text \<open>
  \<^verbatim>\<open>range(0, N, B)\<close>: a zero step raises \<^verbatim>\<open>ValueError\<close>, a negative step gives the empty
  range, a positive step gives the multiples of \<open>B\<close> below \<open>N\<close> in increasing order.
\<close>

definition py_range :: "nat \<Rightarrow> int \<Rightarrow> error + nat list" where
  "py_range N B =
     (if B = 0 then Inl ValueError
      else if B < 0 then Inr []
      else Inr (filter (\<lambda>n. n mod nat B = 0) [0..<N]))"

text \<open>
  \<^verbatim>\<open>s.split("x")\<close>, \<^verbatim>\<open>int(s)\<close> on decimal digits, and \<^verbatim>\<open>xs[i]\<close> for \<open>i \<ge> 0\<close>, which raises
  out of range.
\<close>

fun split_on :: "char \<Rightarrow> string \<Rightarrow> string list" where
  "split_on c [] = [[]]"
| "split_on c (x # xs) =
     (if x = c then [] # split_on c xs
      else (case split_on c xs of w # ws \<Rightarrow> (x # w) # ws | [] \<Rightarrow> [[x]]))"

definition digit_of :: "char \<Rightarrow> nat option" where
  "digit_of = map_of
     [(CHR ''0'', 0), (CHR ''1'', 1), (CHR ''2'', 2), (CHR ''3'', 3), (CHR ''4'', 4),
      (CHR ''5'', 5), (CHR ''6'', 6), (CHR ''7'', 7), (CHR ''8'', 8), (CHR ''9'', 9)]"

fun digits_value :: "nat \<Rightarrow> string \<Rightarrow> error + nat" where
  "digits_value acc [] = Inr acc"
| "digits_value acc (c # cs) =
     (case digit_of c of None \<Rightarrow> Inl ValueError | Some d \<Rightarrow> digits_value (10 * acc + d) cs)"

definition py_int :: "string \<Rightarrow> error + nat" where
  "py_int s = (if s = [] then Inl ValueError else digits_value 0 s)"

definition index :: "'a list \<Rightarrow> nat \<Rightarrow> error + 'a" where
  "index xs i = (if i < length xs then Inr (xs ! i) else Inl IndexError)"

section \<open>Frame Formatter: the body of \<^verbatim>\<open>split_batches\<close>\<close>

text \<open>
  A raw batch is an NCHW tensor, a frame an HWC array of bytes; both are nested lists,
  outermost axis first. Pixel values are taken in an ordered field with a floor function:
  the model computes with exact arithmetic where the code computes in float32.
\<close>

type_synonym 'p raw = "'p list list list list"
type_synonym frame = "8 word list list list"

text \<open>\<^verbatim>\<open>imgs.clamp_(-1, 1)\<close>, elementwise.\<close>

definition clamp :: "'p::linorder \<Rightarrow> 'p \<Rightarrow> 'p \<Rightarrow> 'p" where
  "clamp lo hi x = min (max x lo) hi"

text \<open>\<^verbatim>\<open>(imgs.clamp_(-1, 1) + 1) * 127.5\<close>, elementwise.\<close>

definition scale_pixel :: "'p::floor_ceiling \<Rightarrow> 'p" where
  "scale_pixel x = (clamp (- 1) 1 x + 1) * (255 / 2)"

text \<open>
  \<^verbatim>\<open>.astype(np.uint8)\<close>: the fraction is dropped (rounding towards zero), and the integer is
  kept modulo 256.
\<close>

definition astype_uint8 :: "'p::floor_ceiling \<Rightarrow> 8 word" where
  "astype_uint8 x = word_of_int (if 0 \<le> x then \<lfloor>x\<rfloor> else \<lceil>x\<rceil>)"

text \<open>\<^verbatim>\<open>imgs.permute(0, 2, 3, 1)\<close>: every image goes from CHW to HWC.\<close>

definition permute_0231 :: "'a list list list list \<Rightarrow> 'a list list list list" where
  "permute_0231 imgs = map (\<lambda>img. map transpose (transpose img)) imgs"

text \<open>
  The frames that one pass of the loop body of \<^verbatim>\<open>split_batches\<close> puts on the output
  queue for the batch \<open>imgs\<close>, in the order of the \<^verbatim>\<open>put\<close> calls.
\<close>

definition split_frames :: "('p::floor_ceiling) raw \<Rightarrow> frame list" where
  "split_frames imgs =
     map (map (map (map astype_uint8)))
       (permute_0231 (map (map (map (map scale_pixel))) imgs))"

section \<open>Stream Encoder Sink: the loop body of \<^verbatim>\<open>make_video\<close>\<close>

text \<open>\<^verbatim>\<open>img.shape[1]\<close> and \<^verbatim>\<open>img.shape[2]\<close> of an HWC array with at least one row.\<close>

definition shape1 :: "'a list list \<Rightarrow> nat" where
  "shape1 img = (case img of [] \<Rightarrow> 0 | row # _ \<Rightarrow> length row)"

definition shape2 :: "'a list list list \<Rightarrow> nat" where
  "shape2 img = (case img of [] \<Rightarrow> 0 | row # _ \<Rightarrow> shape1 row)"

text \<open>\<^verbatim>\<open>img[:, 112:-112, :]\<close>: every row loses its first and its last 112 columns.\<close>

definition crop_columns :: "'a list list \<Rightarrow> 'a list list" where
  "crop_columns img = map (\<lambda>row. drop 112 (take (length row - 112) row)) img"

text \<open>\<^verbatim>\<open>img.tobytes()\<close>: the bytes in row-major order.\<close>

definition tobytes :: "frame \<Rightarrow> 8 word list" where
  "tobytes img = concat (concat img)"

text \<open>
  The tuple that the \<^verbatim>\<open>assert\<close> statement of \<^verbatim>\<open>make_video\<close> tests: the parentheses of
  the source enclose the comparison and the message together.
\<close>

definition size_check :: "string \<Rightarrow> frame \<Rightarrow> error + pyval" where
  "size_check output_size img =
     (case index (split_on CHR ''x'' output_size) 1 of Inl e \<Rightarrow> Inl e | Inr hs \<Rightarrow>
      case py_int hs of Inl e \<Rightarrow> Inl e | Inr h \<Rightarrow>
      if shape1 img = h then
        (case index (split_on CHR ''x'' output_size) 0 of Inl e \<Rightarrow> Inl e | Inr ws \<Rightarrow>
         case py_int ws of Inl e \<Rightarrow> Inl e | Inr w \<Rightarrow>
         Inr (PyTuple [PyBool (shape2 img = w),
           PyStr ''generator's output image size does not match specified output size'']))
      else
        Inr (PyTuple [PyBool False,
           PyStr ''generator's output image size does not match specified output size'']))"

text \<open>
  One pass of the loop body of \<^verbatim>\<open>make_video\<close> on the dequeued frame \<open>img\<close>: the bytes it
  writes to the encoder's standard input, or the exception it raises before writing.
  \<open>resize\<close> is PIL's \<^verbatim>\<open>Image.resize\<close> with the bilinear filter, a library function taken as
  a parameter: \<open>resize (w, h) img\<close> is the array of the resized image.
\<close>

definition sink_frame :: "(nat \<times> nat \<Rightarrow> frame \<Rightarrow> frame) \<Rightarrow> string \<Rightarrow> frame \<Rightarrow> error + 8 word list" where
  "sink_frame resize output_size img0 =
     (let img = (if shape1 img0 = 2048 then resize (1920, 1080) (crop_columns img0) else img0)
      in case size_check output_size img of Inl e \<Rightarrow> Inl e | Inr v \<Rightarrow>
         case py_assert v of Inl e \<Rightarrow> Inl e | Inr _ \<Rightarrow> Inr (tobytes img))"

text \<open>The resolution string of line 45.\<close>

definition output_size_of :: "int \<Rightarrow> string" where
  "output_size_of out_size =
     (if out_size = 1024 then ''1024x1024''
      else (if out_size = 512 then ''512x512'' else ''1920x1080''))"

section \<open>The arguments of \<^verbatim>\<open>render\<close>\<close>

text \<open>
  \<^verbatim>\<open>truncation\<close> is a Python float, a Python int (the default value is \<^verbatim>\<open>1\<close>) or a tensor
  with one entry per frame. Tensors are lists of their entries along the first axis; the
  entries themselves stay abstract.
\<close>

datatype 'v truncation = PyFloat rat | PyInt int | Tensor "'v list"

text \<open>
  A bend is a dictionary with the keys \<^verbatim>\<open>layer\<close> and \<^verbatim>\<open>transform\<close>, and sometimes
  \<^verbatim>\<open>modulation\<close>: with a modulation, the transform is a function that is applied to the
  slice of the modulation; without, it is passed on as it is.
\<close>

datatype ('v, 't) bend = Bend nat 't | ModulatedBend nat "'v list \<Rightarrow> 't" "'v list"

text \<open>The objects stored in the \<^verbatim>\<open>rewrites\<close> dictionary, and what calling one does.\<close>

datatype 'v pyobj = Function "'v list \<Rightarrow> nat \<Rightarrow> 'v list" | TensorObj "'v list" | ListObj "'v pyobj list"

fun py_call :: "'v pyobj \<Rightarrow> 'v list \<Rightarrow> nat \<Rightarrow> error + 'v list" where
  "py_call (Function f) w n = Inr (f w n)"
| "py_call (TensorObj t) w n = Inl TypeError"
| "py_call (ListObj vs) w n = Inl TypeError"

text \<open>The keyword arguments of one call of the generator (lines 141 to 148).\<close>

record ('v, 't) gen_call =
  styles :: "'v list"
  noise_arg :: "'v list option list"
  truncation_arg :: "'v truncation"
  transform_dict_list :: "(nat \<times> 't) list"
  randomize_noise_arg :: bool
  input_is_latent :: bool

text \<open>
  The arguments of \<^verbatim>\<open>render\<close>. The generator is an opaque callable: it is given the
  parameters currently installed on it and the keyword arguments, and returns a raw batch
  or raises. \<open>named_parameters\<close> is what \<^verbatim>\<open>generator.named_parameters()\<close> yields. The
  field \<open>rewrites'\<close> is the parameter \<^verbatim>\<open>rewrites\<close>, a dictionary from a parameter's name to the
  pair of a transform and a modulation, kept as the list of its items (the unprimed name is
  reserved in Isabelle).
\<close>

record ('v, 't, 'p) render_args =
  generator :: "(string \<times> 'v list) list \<Rightarrow> ('v, 't) gen_call \<Rightarrow> error + 'p raw"
  named_parameters :: "(string \<times> 'v list) list"
  latents :: "'v list"
  noise :: "'v list option list"
  offset :: rat
  duration :: rat
  batch_size :: int
  out_size :: int
  output_file :: string
  audio_file :: "string option"
  truncation :: "'v truncation"
  bends :: "('v, 't) bend list"
  rewrites' :: "(string \<times> ('v list \<Rightarrow> nat \<Rightarrow> 'v list) \<times> 'v list) list"
  randomize_noise :: bool

section \<open>The encoder subprocess (lines 45 to 71)\<close>

record encoder =
  enc_size :: string
  enc_framerate :: rat
  enc_audio :: "(string \<times> rat \<times> rat) option"
  enc_output_file :: string

text \<open>
  Both branches compute \<^verbatim>\<open>len(latents) / duration\<close>, which raises on a zero duration;
  with an audio file, the audio input runs from \<^verbatim>\<open>offset\<close> to \<^verbatim>\<open>offset + duration\<close>.
\<close>

definition start_encoder :: "('v, 't, 'p) render_args \<Rightarrow> error + encoder" where
  "start_encoder a =
     (let output_size = output_size_of (out_size a)
      in if duration a = 0 then Inl ZeroDivisionError
         else Inr \<lparr>enc_size = output_size,
                   enc_framerate = of_nat (length (latents a)) / duration a,
                   enc_audio = (case audio_file a of None \<Rightarrow> None
                                | Some f \<Rightarrow> Some (f, offset a, offset a + duration a)),
                   enc_output_file = output_file a\<rparr>)"

section \<open>The state of a run\<close>

datatype main_status = Looping | JoinSplitter | JoinRenderer | Returned | Raised error

datatype splitter_status = SNew | SGet | SPut "frame list" | SReturned

datatype renderer_status = RNew | RLoop nat | RReturned | RRaised error

text \<open>
  \<open>todo\<close> holds the values of \<^verbatim>\<open>n\<close> that the \<^verbatim>\<open>for\<close> loop of line 114 has still to
  take. \<open>original_weights\<close> is the module-level name of that spelling: \<open>None\<close> when the name
  is not defined. \<open>stdin\<close> lists the \<^verbatim>\<open>write\<close> calls on the encoder's standard input.
  The splitter is between two \<^verbatim>\<open>get\<close> calls (\<open>SGet\<close>) or has the frames of \<open>SPut\<close> left
  to put; the renderer's \<open>RLoop k\<close> has completed \<open>k\<close> passes of its loop.
\<close>

record ('v, 'p) state =
  video :: encoder
  todo :: "nat list"
  main :: main_status
  rewrite_dict :: "(string \<times> 'v pyobj) list"
  original_weights :: "(string \<times> 'v list) list option"
  gen_params :: "(string \<times> 'v list) list"
  split_queue :: "'p raw list"
  splitter :: splitter_status
  render_queue :: "frame list"
  renderer :: renderer_status
  stdin :: "8 word list list"
  stdin_closed :: bool
  waited :: bool

section \<open>Set-up (lines 97 to 112)\<close>

text \<open>
  Lines 103 to 105, for the items of \<^verbatim>\<open>rewrites\<close> in order: the entry is replaced by the
  list of transform and modulation; the right-hand side of line 105 looks the parameter up,
  then the assignment needs the name \<^verbatim>\<open>original_weights\<close>.
\<close>

fun setup_rewrites ::
  "(string \<times> 'v list) list \<Rightarrow> (string \<times> ('v list \<Rightarrow> nat \<Rightarrow> 'v list) \<times> 'v list) list \<Rightarrow>
   (string \<times> 'v list) list option \<Rightarrow>
   error + ((string \<times> 'v pyobj) list \<times> (string \<times> 'v list) list option)" where
  "setup_rewrites param_dict [] ow = Inr ([], ow)"
| "setup_rewrites param_dict ((param, transform, modulation) # items) ow =
     (case map_of param_dict param of None \<Rightarrow> Inl KeyError | Some w \<Rightarrow>
      case ow of None \<Rightarrow> Inl NameError | Some d \<Rightarrow>
      case setup_rewrites param_dict items (Some ((param, w) # d)) of Inl e \<Rightarrow> Inl e
      | Inr (rs, ow') \<Rightarrow> Inr ((param, ListObj [Function transform, TensorObj modulation]) # rs, ow'))"

text \<open>Lines 111 and 112: everything that is not a float is sent \<^verbatim>\<open>.float()\<close>.\<close>

definition setup_truncation :: "'v truncation \<Rightarrow> error + 'v truncation" where
  "setup_truncation t =
     (case t of PyFloat x \<Rightarrow> Inr (PyFloat x)
      | PyInt i \<Rightarrow> Inl AttributeError
      | Tensor xs \<Rightarrow> Inr (Tensor xs))"

text \<open>
  Everything \<^verbatim>\<open>render\<close> does before the first pass of its loop: the state in which the
  loop starts, or the exception raised on the way. \<open>ow\<close> is the module-level
  \<^verbatim>\<open>original_weights\<close> at the time of the call.
\<close>

definition render_init ::
  "('v, 't, 'p) render_args \<Rightarrow> (string \<times> 'v list) list option \<Rightarrow> error + ('v, 'p) state" where
  "render_init a ow =
     (case start_encoder a of Inl e \<Rightarrow> Inl e | Inr enc \<Rightarrow>
      case setup_rewrites (named_parameters a) (rewrites' a) ow of Inl e \<Rightarrow> Inl e | Inr (rs, ow') \<Rightarrow>
      case setup_truncation (truncation a) of Inl e \<Rightarrow> Inl e | Inr _ \<Rightarrow>
      case py_range (length (latents a)) (batch_size a) of Inl e \<Rightarrow> Inl e | Inr ns \<Rightarrow>
      Inr \<lparr>video = enc, todo = ns, main = Looping, rewrite_dict = rs, original_weights = ow',
           gen_params = named_parameters a, split_queue = [], splitter = SNew,
           render_queue = [], renderer = RNew, stdin = [], stdin_closed = False,
           waited = False\<rparr>)"

section \<open>Batch Scheduler: one pass of the loop of \<^verbatim>\<open>render\<close> (lines 116 to 148)\<close>

definition bend_batch :: "nat \<Rightarrow> nat \<Rightarrow> ('v, 't) bend \<Rightarrow> nat \<times> 't" where
  "bend_batch n b bend =
     (case bend of Bend layer transform \<Rightarrow> (layer, transform)
      | ModulatedBend layer transform modulation \<Rightarrow> (layer, transform (py_slice n b modulation)))"

text \<open>
  Lines 134 to 136, for the items of the dictionary in order: the call needs the name
  \<^verbatim>\<open>original_weights\<close> and the parameter's entry in it, and \<^verbatim>\<open>setattr\<close> puts the new
  weight in front of the generator's parameters.
\<close>

fun apply_rewrites ::
  "(string \<times> 'v pyobj) list \<Rightarrow> (string \<times> 'v list) list option \<Rightarrow> nat \<Rightarrow>
   (string \<times> 'v list) list \<Rightarrow> error + (string \<times> 'v list) list" where
  "apply_rewrites [] ow n params = Inr params"
| "apply_rewrites ((param, rewrite) # items) ow n params =
     (case ow of None \<Rightarrow> Inl NameError | Some d \<Rightarrow>
      case map_of d param of None \<Rightarrow> Inl KeyError | Some w \<Rightarrow>
      case py_call rewrite w n of Inl e \<Rightarrow> Inl e
      | Inr rewritten_weight \<Rightarrow> apply_rewrites items ow n ((param, rewritten_weight) # params))"

text \<open>Line 138.\<close>

definition truncation_batch :: "nat \<Rightarrow> nat \<Rightarrow> 'v truncation \<Rightarrow> error + 'v truncation" where
  "truncation_batch n b t =
     (case t of PyFloat x \<Rightarrow> Inr (PyFloat x)
      | PyInt i \<Rightarrow> Inl TypeError
      | Tensor xs \<Rightarrow> Inr (Tensor (py_slice n b xs)))"

text \<open>The generator call of the batch that starts at \<open>n\<close>.\<close>

definition batch_call :: "('v, 't, 'p) render_args \<Rightarrow> nat \<Rightarrow> 'v truncation \<Rightarrow> ('v, 't) gen_call" where
  "batch_call a n tb =
     \<lparr>styles = py_slice n (nat (batch_size a)) (latents a),
      noise_arg = map (map_option (py_slice n (nat (batch_size a)))) (noise a),
      truncation_arg = tb,
      transform_dict_list = map (bend_batch n (nat (batch_size a))) (bends a),
      randomize_noise_arg = randomize_noise a,
      input_is_latent = True\<rparr>"

definition run_batch ::
  "('v, 't, 'p) render_args \<Rightarrow> ('v, 'p) state \<Rightarrow> nat \<Rightarrow> error + (('v, 'p) state \<times> 'p raw)" where
  "run_batch a s n =
     (case apply_rewrites (rewrite_dict s) (original_weights s) n (gen_params s) of
        Inl e \<Rightarrow> Inl e
      | Inr params \<Rightarrow>
     (case truncation_batch n (nat (batch_size a)) (truncation a) of Inl e \<Rightarrow> Inl e
      | Inr tb \<Rightarrow>
     (case generator a params (batch_call a n tb) of Inl e \<Rightarrow> Inl e
      | Inr outputs \<Rightarrow> Inr (s\<lparr>gen_params := params\<rparr>, outputs))))"

section \<open>The three threads\<close>

text \<open>
  A step of the main thread: one pass of the loop of line 114 (the batch, the \<^verbatim>\<open>put\<close>,
  and for \<^verbatim>\<open>n == 0\<close> the start of the two workers, which raises when a thread was started
  before), or one of the two \<^verbatim>\<open>join\<close> calls. A \<^verbatim>\<open>join\<close> raises on a thread that was never
  started and waits (\<open>None\<close>) for one that is running. The queues have no capacity, so a
  \<^verbatim>\<open>put\<close> never waits.
\<close>

definition main_step :: "('v, 't, 'p) render_args \<Rightarrow> ('v, 'p) state \<Rightarrow> ('v, 'p) state option" where
  "main_step a s =
     (case main s of
        Looping \<Rightarrow>
          (case todo s of
             [] \<Rightarrow> Some (s\<lparr>main := JoinSplitter\<rparr>)
           | n # ns \<Rightarrow>
               (case run_batch a s n of
                  Inl e \<Rightarrow> Some (s\<lparr>main := Raised e\<rparr>)
                | Inr (s1, outputs) \<Rightarrow>
                    (let s2 = s1\<lparr>todo := ns, split_queue := split_queue s1 @ [outputs]\<rparr>
                     in if n = 0 then
                          (if splitter s2 = SNew \<and> renderer s2 = RNew
                           then Some (s2\<lparr>splitter := SGet, renderer := RLoop 0\<rparr>)
                           else Some (s2\<lparr>main := Raised RuntimeError\<rparr>))
                        else Some s2)))
      | JoinSplitter \<Rightarrow>
          (case splitter s of
             SNew \<Rightarrow> Some (s\<lparr>main := Raised RuntimeError\<rparr>)
           | SReturned \<Rightarrow> Some (s\<lparr>main := JoinRenderer\<rparr>)
           | _ \<Rightarrow> None)
      | JoinRenderer \<Rightarrow>
          (case renderer s of
             RNew \<Rightarrow> Some (s\<lparr>main := Raised RuntimeError\<rparr>)
           | RLoop k \<Rightarrow> None
           | _ \<Rightarrow> Some (s\<lparr>main := Returned\<rparr>))
      | _ \<Rightarrow> None)"

text \<open>
  The waiting time of a \<^verbatim>\<open>get(timeout=10)\<close> is not modelled in seconds: a \<^verbatim>\<open>get\<close> on an empty
  queue waits while the thread that fills the queue is still going to put something, and
  runs into its timeout once that thread has stopped. \<open>producing\<close> says that the main
  thread has a batch left to put.
\<close>

definition producing :: "('v, 'p) state \<Rightarrow> bool" where
  "producing s = (main s = Looping \<and> todo s \<noteq> [])"

text \<open>
  A step of \<^verbatim>\<open>split_batches\<close>: the \<^verbatim>\<open>get\<close> (on a timeout, the function returns), one
  \<^verbatim>\<open>put\<close> of a frame, or the end of the pass.
\<close>

definition split_step :: "('v, 'p::floor_ceiling) state \<Rightarrow> ('v, 'p) state option" where
  "split_step s =
     (case splitter s of
        SGet \<Rightarrow>
          (case split_queue s of
             imgs # q \<Rightarrow> Some (s\<lparr>split_queue := q, splitter := SPut (split_frames imgs)\<rparr>)
           | [] \<Rightarrow> if producing s then None else Some (s\<lparr>splitter := SReturned\<rparr>))
      | SPut fs \<Rightarrow>
          (case fs of
             img # rest \<Rightarrow> Some (s\<lparr>render_queue := render_queue s @ [img], splitter := SPut rest\<rparr>)
           | [] \<Rightarrow> Some (s\<lparr>splitter := SGet\<rparr>))
      | _ \<Rightarrow> None)"

text \<open>
  A step of \<^verbatim>\<open>make_video\<close>: one pass of its loop (on a timeout of the \<^verbatim>\<open>get\<close>, the
  exception leaves the function), or, after \<^verbatim>\<open>len(latents)\<close> passes, the \<^verbatim>\<open>close\<close> and the
  \<^verbatim>\<open>wait\<close>.
\<close>

definition render_step ::
  "('v, 't, 'p) render_args \<Rightarrow> (nat \<times> nat \<Rightarrow> frame \<Rightarrow> frame) \<Rightarrow> ('v, 'p) state \<Rightarrow> ('v, 'p) state option" where
  "render_step a resize s =
     (case renderer s of
        RLoop k \<Rightarrow>
          (if k < length (latents a) then
             (case render_queue s of
                img # q \<Rightarrow>
                  (case sink_frame resize (enc_size (video s)) img of
                     Inl e \<Rightarrow> Some (s\<lparr>render_queue := q, renderer := RRaised e\<rparr>)
                   | Inr bytes \<Rightarrow>
                       Some (s\<lparr>render_queue := q, stdin := stdin s @ [bytes], renderer := RLoop (Suc k)\<rparr>))
              | [] \<Rightarrow> if splitter s = SReturned then Some (s\<lparr>renderer := RRaised QueueEmpty\<rparr>) else None)
           else Some (s\<lparr>stdin_closed := True, waited := True, renderer := RReturned\<rparr>))
      | _ \<Rightarrow> None)"

datatype thread = Main | Splitter | Renderer

definition step ::
  "('v, 't, 'p::floor_ceiling) render_args \<Rightarrow> (nat \<times> nat \<Rightarrow> frame \<Rightarrow> frame) \<Rightarrow> thread \<Rightarrow>
   ('v, 'p) state \<Rightarrow> ('v, 'p) state option" where
  "step a resize t s =
     (case t of Main \<Rightarrow> main_step a s | Splitter \<Rightarrow> split_step s | Renderer \<Rightarrow> render_step a resize s)"

text \<open>A run is a schedule: the list of the threads that take the steps, in order.\<close>

fun exec ::
  "('v, 't, 'p::floor_ceiling) render_args \<Rightarrow> (nat \<times> nat \<Rightarrow> frame \<Rightarrow> frame) \<Rightarrow> thread list \<Rightarrow>
   ('v, 'p) state \<Rightarrow> ('v, 'p) state option" where
  "exec a resize [] s = Some s"
| "exec a resize (t # ts) s =
     (case step a resize t s of None \<Rightarrow> None | Some s' \<Rightarrow> exec a resize ts s')"

text \<open>A run is over when no thread can take a step.\<close>

definition terminal ::
  "('v, 't, 'p::floor_ceiling) render_args \<Rightarrow> (nat \<times> nat \<Rightarrow> frame \<Rightarrow> frame) \<Rightarrow> ('v, 'p) state \<Rightarrow> bool" where
  "terminal a resize s =
     (step a resize Main s = None \<and> step a resize Splitter s = None \<and> step a resize Renderer s = None)"

section \<open>Quantities of a run\<close>

text \<open>
  The raw batches that the loop of \<^verbatim>\<open>render\<close> goes on to put when it takes the values
  \<open>ns\<close> of \<^verbatim>\<open>n\<close> from the state \<open>s\<close>: the loop stops at the first batch that raises.
\<close>

fun future :: "('v, 't, 'p) render_args \<Rightarrow> ('v, 'p) state \<Rightarrow> nat list \<Rightarrow> 'p raw list" where
  "future a s [] = []"
| "future a s (n # ns) =
     (case run_batch a s n of Inl e \<Rightarrow> [] | Inr (s', outputs) \<Rightarrow> outputs # future a s' ns)"

definition pending :: "('v, 't, 'p) render_args \<Rightarrow> ('v, 'p) state \<Rightarrow> 'p raw list" where
  "pending a s = (if main s = Looping then future a s (todo s) else [])"

text \<open>The frames of the current batch that the splitter has still to put.\<close>

definition putting :: "('v, 'p) state \<Rightarrow> frame list" where
  "putting s = (case splitter s of SPut fs \<Rightarrow> fs | _ \<Rightarrow> [])"

text \<open>What \<^verbatim>\<open>make_video\<close> writes for a frame when its assertion lets the frame pass.\<close>

definition written :: "(nat \<times> nat \<Rightarrow> frame \<Rightarrow> frame) \<Rightarrow> frame \<Rightarrow> 8 word list" where
  "written resize img =
     tobytes (if shape1 img = 2048 then resize (1920, 1080) (crop_columns img) else img)"

text \<open>
  The writes of a run laid end to end: those already made, followed by those that the
  frames on their way would give, in the order in which they travel.
\<close>

definition stream ::
  "('v, 't, 'p::floor_ceiling) render_args \<Rightarrow> (nat \<times> nat \<Rightarrow> frame \<Rightarrow> frame) \<Rightarrow> ('v, 'p) state \<Rightarrow>
   8 word list list" where
  "stream a resize s =
     stdin s @ map (written resize)
       (render_queue s @ putting s @ concat (map split_frames (split_queue s @ pending a s)))"

text \<open>A bound on the number of steps that the three threads can still take.\<close>

definition batch_work :: "'p raw \<Rightarrow> nat" where
  "batch_work b = 2 + 2 * length b"

definition work_left :: "('v, 't, 'p) render_args \<Rightarrow> ('v, 'p) state \<Rightarrow> nat" where
  "work_left a s =
     (case main s of Looping \<Rightarrow> 3 | JoinSplitter \<Rightarrow> 2 | JoinRenderer \<Rightarrow> 1 | _ \<Rightarrow> 0)
     + sum_list (map (\<lambda>b. Suc (batch_work b)) (pending a s))
     + sum_list (map batch_work (split_queue s))
     + (case splitter s of SNew \<Rightarrow> 1 | SGet \<Rightarrow> 1 | SPut fs \<Rightarrow> 2 + 2 * length fs | SReturned \<Rightarrow> 0)
     + length (render_queue s)
     + (case renderer s of RNew \<Rightarrow> 1 | RLoop k \<Rightarrow> 1 | _ \<Rightarrow> 0)"

text \<open>What holds in every state of every run.\<close>

definition renderer_ok :: "('v, 't, 'p) render_args \<Rightarrow> ('v, 'p) state \<Rightarrow> bool" where
  "renderer_ok a s =
     (case renderer s of
        RNew \<Rightarrow> stdin s = [] \<and> \<not> stdin_closed s \<and> \<not> waited s
      | RLoop k \<Rightarrow> k = length (stdin s) \<and> k \<le> length (latents a) \<and> \<not> stdin_closed s \<and> \<not> waited s
      | RReturned \<Rightarrow> length (stdin s) = length (latents a) \<and> stdin_closed s \<and> waited s
      | RRaised e \<Rightarrow> e = QueueEmpty \<and> splitter s = SReturned \<and> render_queue s = [] \<and>
          length (stdin s) < length (latents a) \<and> \<not> stdin_closed s \<and> \<not> waited s)"

definition consistent :: "('v, 't, 'p) render_args \<Rightarrow> ('v, 'p) state \<Rightarrow> bool" where
  "consistent a s =
     (enc_size (video s) = output_size_of (out_size a) \<and>
      sorted_wrt (<) (todo s) \<and>
      (splitter s = SNew \<longleftrightarrow> renderer s = RNew) \<and>
      (splitter s \<noteq> SNew \<longrightarrow> 0 \<notin> set (todo s)) \<and>
      (splitter s = SReturned \<longrightarrow> split_queue s = [] \<and> \<not> producing s) \<and>
      (main s = JoinRenderer \<or> main s = Returned \<longrightarrow> splitter s = SReturned) \<and>
      (main s = Returned \<longrightarrow> renderer s = RReturned \<or> renderer s = RRaised QueueEmpty) \<and>
      renderer_ok a s)"

text \<open>
  What holds along a run in which no rewrite is asked for and the generator is called with
  its own parameters: the workers are started by the batch at \<open>0\<close>, and the main thread
  either never raises (\<open>fl = None\<close>) or raises \<open>ef\<close> in the batch at \<open>nf\<close>
  (\<open>fl = Some (nf, ef)\<close>) and nowhere else.
\<close>

definition on_track ::
  "('v, 't, 'p) render_args \<Rightarrow> nat list \<Rightarrow> (nat \<times> error) option \<Rightarrow> ('v, 'p) state \<Rightarrow> bool" where
  "on_track a ns fl s =
     (rewrite_dict s = [] \<and> gen_params s = named_parameters a \<and> set (todo s) \<subseteq> set ns \<and>
      (splitter s = SNew \<longrightarrow> main s = Looping \<and> todo s \<noteq> [] \<and> hd (todo s) = 0) \<and>
      (case fl of
         None \<Rightarrow> (\<forall>e. main s \<noteq> Raised e)
       | Some (nf, ef) \<Rightarrow>
           (main s = Looping \<longrightarrow> nf \<in> set (todo s)) \<and> (main s \<noteq> Looping \<longrightarrow> main s = Raised ef)))"

section \<open>Example inputs\<close>

text \<open>Concrete inputs on which the theorems below are evaluated.\<close>

definition small_frame :: frame where
  "small_frame = [[[1, 2, 3], [4, 5, 6]], [[7, 8, 9], [10, 11, 12]]]"


text \<open>A stand-in for PIL's resize that has the right shape: a black image of the size asked for.\<close>

definition blank_resize :: "nat \<times> nat \<Rightarrow> frame \<Rightarrow> frame" where
  "blank_resize wh img = replicate (snd wh) (replicate (fst wh) [0, 0, 0])"


text \<open>
  A generator that returns one image of a single pixel per latent, and a call of
  \<^verbatim>\<open>render\<close> with three latents and a batch size of two.
\<close>

definition example_generator :: "(string \<times> nat list) list \<Rightarrow> (nat, nat) gen_call \<Rightarrow> error + rat raw" where
  "example_generator params c = Inr (map (\<lambda>l. [[[of_nat l / 2 - 1]]]) (styles c))"

definition example_args :: "(nat, nat, rat) render_args" where
  "example_args =
     \<lparr>generator = example_generator, named_parameters = [(''w'', [1])], latents = [0, 1, 2],
      noise = [], offset = 0, duration = 1, batch_size = 2, out_size = 512, output_file = ''out.mp4'',
      audio_file = None, truncation = PyFloat 1, bends = [], rewrites' = [],
      randomize_noise = False\<rparr>"


definition example_outputs :: "nat \<Rightarrow> rat raw" where
  "example_outputs n = map (\<lambda>l. [[[of_nat l / 2 - 1]]]) (py_slice n 2 [0, 1, 2])"

definition example_initial_state :: "(nat, rat) state" where
  "example_initial_state =
     \<lparr>video = \<lparr>enc_size = ''512x512'', enc_framerate = 3, enc_audio = None,
                enc_output_file = ''out.mp4''\<rparr>,
      todo = [0, 2], main = Looping, rewrite_dict = [], original_weights = None,
      gen_params = [(''w'', [1])], split_queue = [], splitter = SNew, render_queue = [],
      renderer = RNew, stdin = [], stdin_closed = False, waited = False\<rparr>"






text \<open>The call without any latents, and with as many latents as one likes in batches of one.\<close>

definition empty_args :: "(nat, nat, rat) render_args" where
  "empty_args = example_args\<lparr>latents := []\<rparr>"

definition empty_initial_state :: "(nat, rat) state" where
  "empty_initial_state =
     example_initial_state\<lparr>video := video example_initial_state\<lparr>enc_framerate := 0\<rparr>, todo := []\<rparr>"

definition long_args :: "nat \<Rightarrow> (nat, nat, rat) render_args" where
  "long_args N = example_args\<lparr>latents := [0..<N], batch_size := 1\<rparr>"

text \<open>The example call after the main thread has run both batches and no worker has moved.\<close>

definition example_queued_state :: "(nat, rat) state" where
  "example_queued_state =
     example_initial_state
       \<lparr>todo := [], split_queue := [example_outputs 0, example_outputs 2], splitter := SGet,
        renderer := RLoop 0\<rparr>"

section \<open>The Frame Formatter\<close>


















section \<open>The Stream Encoder Sink\<close>

lemma size_check_tuple:
  "\<exists>b m. size_check (output_size_of k) img = Inr (PyTuple [PyBool b, PyStr m])"
  by (auto simp: size_check_def output_size_of_def index_def py_int_def digit_of_def)

lemma sink_frame_total:
  "sink_frame resize (output_size_of k) img =
     Inr (tobytes (if shape1 img = 2048 then resize (1920, 1080) (crop_columns img) else img))"
proof -
  let ?img = "if shape1 img = 2048 then resize (1920, 1080) (crop_columns img) else img"
  obtain b m where "size_check (output_size_of k) ?img = Inr (PyTuple [PyBool b, PyStr m])"
    using size_check_tuple by blast
  then show ?thesis
    by (simp add: sink_frame_def py_assert_def Let_def)
qed


text \<open>
  Claim C3 says that a frame whose dimensions disagree with the declared output size, and
  which is not 2048 pixels wide, makes the Sink raise before it writes. The code does not:
  the \<^verbatim>\<open>assert\<close> of \<^verbatim>\<open>make_video\<close> tests a two-element tuple, which is true whatever the
  comparison inside it says, so that every frame that is not 2048 pixels wide is written as
  it is, for each of the three resolution strings.
\<close>

theorem mismatched_frame_is_written:
  assumes "shape1 img \<noteq> 2048"
  shows "sink_frame resize (output_size_of k) img = Inr (tobytes img)"
  using assms by (simp add: sink_frame_total)

theorem mismatched_frame_is_written_witness:
  "shape1 small_frame \<noteq> 2048 \<and>
   sink_frame blank_resize (output_size_of 1024) small_frame =
     Inr [1, 2, 3, 4, 5, 6, 7, 8, 9, 10, 11, 12]"
proof -
  have h: "shape1 small_frame \<noteq> 2048" by (simp add: small_frame_def shape1_def)
  show ?thesis using h mismatched_frame_is_written [OF h, of blank_resize 1024]
    by (simp add: small_frame_def tobytes_def)
qed





section \<open>Configuration\<close>

text \<open>
  Claim C9. For every \<open>out_size\<close> other than 1024 and 512 the resolution string is
  \<open>1920x1080\<close>, the encoder is started with it (unless the duration is zero, which raises
  for every \<open>out_size\<close>), and \<open>out_size\<close> is never validated: the set-up of \<^verbatim>\<open>render\<close> raises
  an exception for such a value exactly when it raises the same exception for 1024.
\<close>

theorem out_size_unvalidated:
  assumes "out_size a \<noteq> 1024" "out_size a \<noteq> 512"
  shows "output_size_of (out_size a) = ''1920x1080'' \<and>
         (duration a \<noteq> 0 \<longrightarrow> (\<exists>enc. start_encoder a = Inr enc \<and> enc_size enc = ''1920x1080'')) \<and>
         (\<forall>e. render_init a ow = Inl e \<longleftrightarrow> render_init (a\<lparr>out_size := 1024\<rparr>) ow = Inl e)"
proof -
  have 1: "output_size_of (out_size a) = ''1920x1080''"
    using assms by (simp add: output_size_of_def)
  have 2: "duration a \<noteq> 0 \<longrightarrow> (\<exists>enc. start_encoder a = Inr enc \<and> enc_size enc = ''1920x1080'')"
    using 1 by (simp add: start_encoder_def Let_def)
  have 3: "render_init a ow = Inl e \<longleftrightarrow> render_init (a\<lparr>out_size := 1024\<rparr>) ow = Inl e" for e
    by (simp add: render_init_def start_encoder_def Let_def split: sum.splits prod.splits)
  show ?thesis using 1 2 3 by blast
qed


theorem out_size_unvalidated_witness:
  "out_size (example_args\<lparr>out_size := 720\<rparr>) \<noteq> 1024 \<and>
   out_size (example_args\<lparr>out_size := 720\<rparr>) \<noteq> 512 \<and>
   duration (example_args\<lparr>out_size := 720\<rparr>) \<noteq> 0 \<and>
   output_size_of 720 = ''1920x1080'' \<and>
   (\<exists>enc. start_encoder (example_args\<lparr>out_size := 720\<rparr>) = Inr enc \<and> enc_size enc = ''1920x1080'') \<and>
   (\<forall>e. render_init (example_args\<lparr>out_size := 720\<rparr>) None \<noteq> Inl e)"
proof -
  let ?a = "example_args\<lparr>out_size := 720\<rparr>"
  have h1: "out_size ?a \<noteq> 1024" and h2: "out_size ?a \<noteq> 512" and h3: "duration ?a \<noteq> 0"
    by (simp_all add: example_args_def)
  have r: "render_init (?a\<lparr>out_size := 1024\<rparr>) None \<noteq> Inl e" for e
    by (simp add: render_init_def example_args_def start_encoder_def Let_def setup_truncation_def
        py_range_def)
  from out_size_unvalidated [OF h1 h2, of None] h1 h2 h3 r show ?thesis by simp
qed

section \<open>Truncation\<close>

lemma run_batch_call:
  "run_batch a s n = Inr (s', outputs) \<Longrightarrow>
   \<exists>params tb. truncation_batch n (nat (batch_size a)) (truncation a) = Inr tb \<and>
      generator a params (batch_call a n tb) = Inr outputs"
  by (auto simp: run_batch_def split: sum.splits)


text \<open>A float is passed to every generator call as it is, a tensor is sliced to the batch.\<close>

lemma truncation_float_unchanged:
  assumes "truncation a = PyFloat x" "run_batch a s n = Inr (s', outputs)"
  shows "setup_truncation (truncation a) = Inr (PyFloat x) \<and>
    (\<exists>params tb. generator a params (batch_call a n tb) = Inr outputs \<and>
       truncation_arg (batch_call a n tb) = PyFloat x)"
  using run_batch_call [OF assms(2)] assms(1)
  by (auto simp: truncation_batch_def batch_call_def setup_truncation_def)

lemma truncation_tensor_sliced:
  assumes "truncation a = Tensor xs" "run_batch a s n = Inr (s', outputs)"
  shows "setup_truncation (truncation a) = Inr (Tensor xs) \<and>
    (\<exists>params tb. generator a params (batch_call a n tb) = Inr outputs \<and>
       truncation_arg (batch_call a n tb) = Tensor (py_slice n (nat (batch_size a)) xs))"
  using run_batch_call [OF assms(2)] assms(1)
  by (auto simp: truncation_batch_def batch_call_def setup_truncation_def)

text \<open>
  Claim C6 says that a scalar truncation is passed unchanged to the generator for every
  batch. That holds for a Python float; a Python int, such as the default value \<^verbatim>\<open>1\<close> of
  the parameter, is not a float, so line 112 calls \<^verbatim>\<open>.float()\<close> on it: \<^verbatim>\<open>render\<close> raises
  before its first batch and the generator is never called.
\<close>

theorem int_truncation_raises:
  assumes "truncation a = PyInt i"
  shows "(\<exists>e. render_init a ow = Inl e) \<and>
         (duration a \<noteq> 0 \<and> rewrites' a = [] \<longrightarrow> render_init a ow = Inl AttributeError)"
proof -
  have "\<exists>e. render_init a ow = Inl e"
    using assms by (auto simp: render_init_def setup_truncation_def split: sum.splits prod.splits)
  moreover have "render_init a ow = Inl AttributeError" if "duration a \<noteq> 0" "rewrites' a = []"
    using that assms by (simp add: render_init_def setup_truncation_def start_encoder_def Let_def)
  ultimately show ?thesis by blast
qed

theorem int_truncation_raises_witness:
  "truncation (example_args\<lparr>truncation := PyInt 1\<rparr>) = PyInt 1 \<and>
   duration (example_args\<lparr>truncation := PyInt 1\<rparr>) \<noteq> 0 \<and>
   rewrites' (example_args\<lparr>truncation := PyInt 1\<rparr>) = [] \<and>
   render_init (example_args\<lparr>truncation := PyInt 1\<rparr>) None = Inl AttributeError"
proof -
  let ?a = "example_args\<lparr>truncation := PyInt 1\<rparr>"
  have h: "truncation ?a = PyInt 1" and d: "duration ?a \<noteq> 0" and r: "rewrites' ?a = []"
    by (simp_all add: example_args_def)
  from int_truncation_raises [OF h, of None] h d r show ?thesis by blast
qed

section \<open>The pipeline\<close>


section \<open>Steps, case by case\<close>

lemma run_batch_state:
  assumes "run_batch a s n = Inr (s1, out)"
  obtains params where "s1 = s\<lparr>gen_params := params\<rparr>"
  using assms by (auto simp: run_batch_def split: sum.splits)

lemma main_stepE:
  assumes "main_step a s = Some s'"
  obtains
    (finish) "main s = Looping" "todo s = []" "s' = s\<lparr>main := JoinSplitter\<rparr>"
  | (fail) n ns e where "main s = Looping" "todo s = n # ns" "run_batch a s n = Inl e"
      "s' = s\<lparr>main := Raised e\<rparr>"
  | (start) ns params out where "main s = Looping" "todo s = 0 # ns"
      "run_batch a s 0 = Inr (s\<lparr>gen_params := params\<rparr>, out)"
      "splitter s = SNew" "renderer s = RNew"
      "s' = s\<lparr>gen_params := params, todo := ns, split_queue := split_queue s @ [out],
              splitter := SGet, renderer := RLoop 0\<rparr>"
  | (restart) ns params out where "main s = Looping" "todo s = 0 # ns"
      "run_batch a s 0 = Inr (s\<lparr>gen_params := params\<rparr>, out)"
      "\<not> (splitter s = SNew \<and> renderer s = RNew)"
      "s' = s\<lparr>gen_params := params, todo := ns, split_queue := split_queue s @ [out],
              main := Raised RuntimeError\<rparr>"
  | (batch) n ns params out where "main s = Looping" "todo s = n # ns" "n \<noteq> 0"
      "run_batch a s n = Inr (s\<lparr>gen_params := params\<rparr>, out)"
      "s' = s\<lparr>gen_params := params, todo := ns, split_queue := split_queue s @ [out]\<rparr>"
  | (join1_raise) "main s = JoinSplitter" "splitter s = SNew" "s' = s\<lparr>main := Raised RuntimeError\<rparr>"
  | (join1) "main s = JoinSplitter" "splitter s = SReturned" "s' = s\<lparr>main := JoinRenderer\<rparr>"
  | (join2_raise) "main s = JoinRenderer" "renderer s = RNew" "s' = s\<lparr>main := Raised RuntimeError\<rparr>"
  | (join2) "main s = JoinRenderer" "renderer s = RReturned \<or> (\<exists>e. renderer s = RRaised e)"
      "s' = s\<lparr>main := Returned\<rparr>"
proof (cases "main s")
  case Looping
  show ?thesis
  proof (cases "todo s")
    case Nil
    with Looping assms finish show ?thesis by (simp add: main_step_def)
  next
    case (Cons n ns)
    show ?thesis
    proof (cases "run_batch a s n")
      case (Inl e)
      with Looping Cons assms fail show ?thesis by (simp add: main_step_def)
    next
      case (Inr r)
      obtain s1 out where r: "r = (s1, out)" by (cases r)
      with Inr obtain params where s1: "s1 = s\<lparr>gen_params := params\<rparr>"
        using run_batch_state by blast
      show ?thesis
      proof (cases "n = 0")
        case False
        with Looping Cons Inr r s1 assms batch [of n ns params out] show ?thesis
          by (simp add: main_step_def Let_def)
      next
        case True
        show ?thesis
        proof (cases "splitter s = SNew \<and> renderer s = RNew")
          case True
          with \<open>n = 0\<close> Looping Cons Inr r s1 assms start [of ns params out] show ?thesis
            by (simp add: main_step_def Let_def)
        next
          case False
          with \<open>n = 0\<close> Looping Cons Inr r s1 assms restart [of ns params out] show ?thesis
            by (auto simp: main_step_def Let_def)
        qed
      qed
    qed
  qed
next
  case JoinSplitter
  with assms join1_raise join1 show ?thesis
    by (cases "splitter s") (simp_all add: main_step_def)
next
  case JoinRenderer
  with assms join2_raise join2 show ?thesis
    by (cases "renderer s") (simp_all add: main_step_def)
next
  case Returned
  with assms show ?thesis by (simp add: main_step_def)
next
  case (Raised e)
  with assms show ?thesis by (simp add: main_step_def)
qed

lemma split_stepE:
  assumes "split_step s = Some s'"
  obtains
    (get) imgs q where "splitter s = SGet" "split_queue s = imgs # q"
      "s' = s\<lparr>split_queue := q, splitter := SPut (split_frames imgs)\<rparr>"
  | (timeout) "splitter s = SGet" "split_queue s = []" "\<not> producing s" "s' = s\<lparr>splitter := SReturned\<rparr>"
  | (put) img rest where "splitter s = SPut (img # rest)"
      "s' = s\<lparr>render_queue := render_queue s @ [img], splitter := SPut rest\<rparr>"
  | (task_done) "splitter s = SPut []" "s' = s\<lparr>splitter := SGet\<rparr>"
proof (cases "splitter s")
  case SNew
  with assms show ?thesis by (simp add: split_step_def)
next
  case SGet
  with assms get timeout show ?thesis
    by (cases "split_queue s") (simp_all add: split_step_def split: if_splits)
next
  case (SPut fs)
  with assms put task_done show ?thesis
    by (cases fs) (simp_all add: split_step_def)
next
  case SReturned
  with assms show ?thesis by (simp add: split_step_def)
qed

lemma render_stepE:
  assumes "render_step a r s = Some s'"
  obtains
    (frame) k img q bytes where "renderer s = RLoop k" "k < length (latents a)"
      "render_queue s = img # q" "sink_frame r (enc_size (video s)) img = Inr bytes"
      "s' = s\<lparr>render_queue := q, stdin := stdin s @ [bytes], renderer := RLoop (Suc k)\<rparr>"
  | (assert_fails) k img q e where "renderer s = RLoop k" "k < length (latents a)"
      "render_queue s = img # q" "sink_frame r (enc_size (video s)) img = Inl e"
      "s' = s\<lparr>render_queue := q, renderer := RRaised e\<rparr>"
  | (timeout) k where "renderer s = RLoop k" "k < length (latents a)" "render_queue s = []"
      "splitter s = SReturned" "s' = s\<lparr>renderer := RRaised QueueEmpty\<rparr>"
  | (closing) k where "renderer s = RLoop k" "\<not> k < length (latents a)"
      "s' = s\<lparr>stdin_closed := True, waited := True, renderer := RReturned\<rparr>"
proof (cases "renderer s")
  case (RLoop k)
  show ?thesis
  proof (cases "k < length (latents a)")
    case False
    with RLoop assms closing show ?thesis by (simp add: render_step_def)
  next
    case True
    show ?thesis
    proof (cases "render_queue s")
      case Nil
      with True RLoop assms timeout show ?thesis
        by (simp add: render_step_def split: if_splits)
    next
      case (Cons img q)
      with True RLoop assms frame assert_fails show ?thesis
        by (cases "sink_frame r (enc_size (video s)) img") (simp_all add: render_step_def)
    qed
  qed
qed (use assms in \<open>simp_all add: render_step_def\<close>)


section \<open>The batches to come\<close>

lemma run_batch_cong:
  assumes "rewrite_dict t = rewrite_dict s" "original_weights t = original_weights s"
    "gen_params t = gen_params s"
  shows "run_batch a t n =
    (case run_batch a s n of Inl e \<Rightarrow> Inl e | Inr (s1, out) \<Rightarrow> Inr (t\<lparr>gen_params := gen_params s1\<rparr>, out))"
  using assms by (simp add: run_batch_def split: sum.splits)

lemma future_cong:
  assumes "rewrite_dict t = rewrite_dict s" "original_weights t = original_weights s"
    "gen_params t = gen_params s"
  shows "future a t ns = future a s ns"
  using assms
proof (induction ns arbitrary: s t)
  case Nil
  show ?case by simp
next
  case (Cons n ns)
  show ?case
  proof (cases "run_batch a s n")
    case (Inl e)
    then show ?thesis using run_batch_cong [OF Cons.prems, of a n] by simp
  next
    case (Inr r)
    obtain s1 out where r: "r = (s1, out)" by (cases r)
    obtain params where s1: "s1 = s\<lparr>gen_params := params\<rparr>"
      using Inr r run_batch_state by blast
    have t: "run_batch a t n = Inr (t\<lparr>gen_params := params\<rparr>, out)"
      using run_batch_cong [OF Cons.prems, of a n] Inr r s1 by simp
    have "future a (t\<lparr>gen_params := params\<rparr>) ns = future a s1 ns"
      by (rule Cons.IH) (simp_all add: s1 Cons.prems)
    then show ?thesis using Inr r t by simp
  qed
qed

lemma pending_batch:
  assumes "main s = Looping" "todo s = n # ns" "run_batch a s n = Inr (s\<lparr>gen_params := params\<rparr>, out)"
    and "main s' = Looping" "todo s' = ns" "rewrite_dict s' = rewrite_dict s"
    "original_weights s' = original_weights s" "gen_params s' = params"
  shows "pending a s = out # pending a s'"
proof -
  have "future a s' ns = future a (s\<lparr>gen_params := params\<rparr>) ns"
    by (rule future_cong) (simp_all add: assms)
  then show ?thesis using assms by (simp add: pending_def)
qed

lemma pending_same:
  assumes "main s' = main s" "todo s' = todo s" "rewrite_dict s' = rewrite_dict s"
    "original_weights s' = original_weights s" "gen_params s' = gen_params s"
  shows "pending a s' = pending a s"
  using assms future_cong [of s' s a "todo s"] by (simp add: pending_def)

lemma pending_head:
  assumes "main s = Looping" "todo s = n # ns" "run_batch a s n = Inr (s1, out)"
  shows "\<exists>rest. pending a s = out # rest"
  using assms by (simp add: pending_def)

section \<open>Every step uses up work\<close>

lemma length_split_frames: "length (split_frames imgs) = length imgs"
  by (simp add: split_frames_def permute_0231_def)

lemma main_step_work:
  assumes "main_step a s = Some s'"
  shows "work_left a s' < work_left a s"
  using assms
proof (cases rule: main_stepE)
  case finish
  then show ?thesis by (simp add: work_left_def pending_def)
next
  case (fail n ns e)
  then show ?thesis by (simp add: work_left_def pending_def)
next
  case (start ns params out)
  have "pending a s = out # pending a s'"
    using start by (intro pending_batch [where n = 0 and ns = ns and params = params]) simp_all
  then show ?thesis using start by (simp add: work_left_def batch_work_def)
next
  case (restart ns params out)
  obtain rest where "pending a s = out # rest"
    using pending_head restart by blast
  moreover have "pending a s' = []" using restart by (simp add: pending_def)
  ultimately show ?thesis using restart by (simp add: work_left_def batch_work_def)
next
  case (batch n ns params out)
  have "pending a s = out # pending a s'"
    using batch by (intro pending_batch [where n = n and ns = ns and params = params]) simp_all
  then show ?thesis using batch by (simp add: work_left_def batch_work_def)
next
  case join1_raise
  then show ?thesis by (simp add: work_left_def pending_def)
next
  case join1
  then show ?thesis by (simp add: work_left_def pending_def)
next
  case join2_raise
  then show ?thesis by (simp add: work_left_def pending_def)
next
  case join2
  then show ?thesis by (auto simp: work_left_def pending_def)
qed

lemma split_step_work:
  assumes "split_step s = Some s'"
  shows "work_left a s' < work_left a s"
  using assms
proof (cases rule: split_stepE)
  case (get imgs q)
  have "pending a s' = pending a s" using get by (intro pending_same) simp_all
  then show ?thesis using get by (simp add: work_left_def batch_work_def length_split_frames)
next
  case timeout
  have "pending a s' = pending a s" using timeout by (intro pending_same) simp_all
  then show ?thesis using timeout by (simp add: work_left_def)
next
  case (put img rest)
  have "pending a s' = pending a s" using put by (intro pending_same) simp_all
  then show ?thesis using put by (simp add: work_left_def)
next
  case task_done
  have "pending a s' = pending a s" using task_done by (intro pending_same) simp_all
  then show ?thesis using task_done by (simp add: work_left_def)
qed

lemma render_step_work:
  assumes "render_step a r s = Some s'"
  shows "work_left a s' < work_left a s"
  using assms
proof (cases rule: render_stepE)
  case (frame k img q bytes)
  have "pending a s' = pending a s" using frame by (intro pending_same) simp_all
  then show ?thesis using frame by (simp add: work_left_def)
next
  case (assert_fails k img q e)
  have "pending a s' = pending a s" using assert_fails by (intro pending_same) simp_all
  then show ?thesis using assert_fails by (simp add: work_left_def)
next
  case (timeout k)
  have "pending a s' = pending a s" using timeout by (intro pending_same) simp_all
  then show ?thesis using timeout by (simp add: work_left_def)
next
  case (closing k)
  have "pending a s' = pending a s" using closing by (intro pending_same) simp_all
  then show ?thesis using closing by (simp add: work_left_def)
qed

lemma step_work:
  "step a r t s = Some s' \<Longrightarrow> work_left a s' < work_left a s"
  by (cases t) (simp_all add: step_def main_step_work split_step_work render_step_work)


lemma run_to_end:
  "\<exists>sched s'. exec a r sched s = Some s' \<and> terminal a r s'"
proof (induction "work_left a s" arbitrary: s rule: less_induct)
  case less
  show ?case
  proof (cases "terminal a r s")
    case True
    then have "exec a r [] s = Some s \<and> terminal a r s" by simp
    then show ?thesis by blast
  next
    case False
    then obtain t s1 where 1: "step a r t s = Some s1"
      by (auto simp: terminal_def)
    from less [OF step_work [OF 1]] obtain sched s' where
      "exec a r sched s1 = Some s'" "terminal a r s'" by blast
    then have "exec a r (t # sched) s = Some s' \<and> terminal a r s'" using 1 by simp
    then show ?thesis by blast
  qed
qed


section \<open>What every reachable state satisfies\<close>

lemma main_step_consistent:
  assumes "main_step a s = Some s'" "consistent a s"
  shows "consistent a s'"
  using assms(1)
proof (cases rule: main_stepE)
  case finish
  with assms(2) show ?thesis by (auto simp: consistent_def renderer_ok_def producing_def split: renderer_status.splits)
next
  case (fail n ns e)
  with assms(2) show ?thesis
    by (auto simp: consistent_def renderer_ok_def producing_def split: renderer_status.splits)
next
  case (start ns params out)
  with assms(2) show ?thesis
    by (auto simp: consistent_def renderer_ok_def producing_def split: renderer_status.splits)
next
  case (restart ns params out)
  with assms(2) show ?thesis
    by (auto simp: consistent_def renderer_ok_def producing_def split: renderer_status.splits)
next
  case (batch n ns params out)
  with assms(2) show ?thesis
    by (auto simp: consistent_def renderer_ok_def producing_def split: renderer_status.splits)
next
  case join1_raise
  with assms(2) show ?thesis
    by (auto simp: consistent_def renderer_ok_def producing_def split: renderer_status.splits)
next
  case join1
  with assms(2) show ?thesis
    by (auto simp: consistent_def renderer_ok_def producing_def split: renderer_status.splits)
next
  case join2_raise
  with assms(2) show ?thesis
    by (auto simp: consistent_def renderer_ok_def producing_def split: renderer_status.splits)
next
  case join2
  with assms(2) show ?thesis
    by (auto simp: consistent_def renderer_ok_def producing_def split: renderer_status.splits)
qed

lemma split_step_consistent:
  assumes "split_step s = Some s'" "consistent a s"
  shows "consistent a s'"
  using assms(1)
proof (cases rule: split_stepE)
  case (get imgs q)
  with assms(2) show ?thesis
    by (auto simp: consistent_def renderer_ok_def producing_def split: renderer_status.splits)
next
  case timeout
  with assms(2) show ?thesis
    by (auto simp: consistent_def renderer_ok_def producing_def split: renderer_status.splits)
next
  case (put img rest)
  with assms(2) show ?thesis
    by (auto simp: consistent_def renderer_ok_def producing_def split: renderer_status.splits)
next
  case task_done
  with assms(2) show ?thesis
    by (auto simp: consistent_def renderer_ok_def producing_def split: renderer_status.splits)
qed

lemma sink_frame_written:
  "consistent a s \<Longrightarrow> sink_frame r (enc_size (video s)) img = Inr (written r img)"
  by (simp add: consistent_def sink_frame_total written_def)

lemma render_step_consistent:
  assumes "render_step a r s = Some s'" "consistent a s"
  shows "consistent a s'"
  using assms(1)
proof (cases rule: render_stepE)
  case (frame k img q bytes)
  with assms(2) show ?thesis
    by (auto simp: consistent_def renderer_ok_def producing_def split: renderer_status.splits)
next
  case (assert_fails k img q e)
  with sink_frame_written [OF assms(2), of r img] show ?thesis by simp
next
  case (timeout k)
  with assms(2) show ?thesis
    by (auto simp: consistent_def renderer_ok_def producing_def split: renderer_status.splits)
next
  case (closing k)
  with assms(2) show ?thesis
    by (auto simp: consistent_def renderer_ok_def producing_def split: renderer_status.splits)
qed

lemma step_consistent:
  "step a r t s = Some s' \<Longrightarrow> consistent a s \<Longrightarrow> consistent a s'"
  by (cases t)
    (auto simp: step_def intro: main_step_consistent split_step_consistent render_step_consistent)


section \<open>No frame is lost, added or reordered\<close>

lemma main_step_stream:
  assumes "main_step a s = Some s'" "consistent a s"
  shows "stream a r s' = stream a r s"
  using assms(1)
proof (cases rule: main_stepE)
  case finish
  then show ?thesis by (simp add: stream_def pending_def putting_def)
next
  case (fail n ns e)
  then show ?thesis by (simp add: stream_def pending_def putting_def)
next
  case (start ns params out)
  have "pending a s = out # pending a s'"
    using start by (intro pending_batch [where n = 0 and ns = ns and params = params]) simp_all
  then show ?thesis using start by (simp add: stream_def putting_def)
next
  case (restart ns params out)
  with assms(2) show ?thesis by (auto simp: consistent_def)
next
  case (batch n ns params out)
  have "pending a s = out # pending a s'"
    using batch by (intro pending_batch [where n = n and ns = ns and params = params]) simp_all
  then show ?thesis using batch by (simp add: stream_def putting_def)
next
  case join1_raise
  then show ?thesis by (simp add: stream_def pending_def putting_def)
next
  case join1
  then show ?thesis by (simp add: stream_def pending_def putting_def)
next
  case join2_raise
  then show ?thesis by (simp add: stream_def pending_def putting_def)
next
  case join2
  then show ?thesis by (simp add: stream_def pending_def putting_def)
qed

lemma split_step_stream:
  assumes "split_step s = Some s'"
  shows "stream a r s' = stream a r s"
  using assms
proof (cases rule: split_stepE)
  case (get imgs q)
  have "pending a s' = pending a s" using get by (intro pending_same) simp_all
  then show ?thesis using get by (simp add: stream_def putting_def)
next
  case timeout
  have "pending a s' = pending a s" using timeout by (intro pending_same) simp_all
  then show ?thesis using timeout by (simp add: stream_def putting_def)
next
  case (put img rest)
  have "pending a s' = pending a s" using put by (intro pending_same) simp_all
  then show ?thesis using put by (simp add: stream_def putting_def)
next
  case task_done
  have "pending a s' = pending a s" using task_done by (intro pending_same) simp_all
  then show ?thesis using task_done by (simp add: stream_def putting_def)
qed

lemma render_step_stream:
  assumes "render_step a r s = Some s'" "consistent a s"
  shows "stream a r s' = stream a r s"
  using assms(1)
proof (cases rule: render_stepE)
  case (frame k img q bytes)
  have "pending a s' = pending a s" using frame by (intro pending_same) simp_all
  moreover have "bytes = written r img"
    using frame sink_frame_written [OF assms(2), of r img] by simp
  ultimately show ?thesis using frame by (simp add: stream_def putting_def)
next
  case (assert_fails k img q e)
  with sink_frame_written [OF assms(2), of r img] show ?thesis by simp
next
  case (timeout k)
  have "pending a s' = pending a s" using timeout by (intro pending_same) simp_all
  then show ?thesis using timeout by (simp add: stream_def putting_def)
next
  case (closing k)
  have "pending a s' = pending a s" using closing by (intro pending_same) simp_all
  then show ?thesis using closing by (simp add: stream_def putting_def)
qed

lemma step_stream:
  "step a r t s = Some s' \<Longrightarrow> consistent a s \<Longrightarrow> stream a r s' = stream a r s"
  by (cases t) (simp_all add: step_def main_step_stream split_step_stream render_step_stream)

lemma exec_stream:
  "exec a r sched s = Some s' \<Longrightarrow> consistent a s \<Longrightarrow> stream a r s' = stream a r s"
proof (induction sched arbitrary: s)
  case Nil
  then show ?case by simp
next
  case (Cons t ts)
  then obtain s1 where 1: "step a r t s = Some s1" and 2: "exec a r ts s1 = Some s'"
    by (auto split: option.splits)
  from Cons.IH [OF 2 step_consistent [OF 1 Cons.prems(2)]] step_stream [OF 1 Cons.prems(2)]
  show ?case by simp
qed

section \<open>The end of a run\<close>





section \<open>The batches of a run\<close>

lemma ceil_div_cases:
  fixes B :: nat
  assumes "0 < B"
  shows "(N + B - 1) div B = (if N mod B = 0 then N div B else Suc (N div B))"
proof -
  have e: "B * (N div B) + N mod B = N" by simp
  have r: "N mod B < B" using assms by simp
  show ?thesis
  proof (cases "N mod B = 0")
    case True
    have "(N + B - 1) div B = N div B"
    proof (rule div_nat_eqI)
      show "B * (N div B) \<le> N + B - 1" using e True assms by linarith
      have "B * Suc (N div B) = B * (N div B) + B" by simp
      then show "N + B - 1 < B * Suc (N div B)" using e True assms by linarith
    qed
    then show ?thesis using True by simp
  next
    case False
    have "(N + B - 1) div B = Suc (N div B)"
    proof (rule div_nat_eqI)
      have m: "B * Suc (N div B) = B * (N div B) + B"
        "B * Suc (Suc (N div B)) = B * (N div B) + B + B" by simp_all
      have "0 < N mod B" using False by simp
      then show "B * Suc (N div B) \<le> N + B - 1" unfolding m using e assms by linarith
      show "N + B - 1 < B * Suc (Suc (N div B))" unfolding m using e r assms by linarith
    qed
    then show ?thesis using False by simp
  qed
qed

lemma range_starts:
  fixes B :: nat
  assumes "0 < B"
  shows "filter (\<lambda>n. n mod B = 0) [0..<N] = map (\<lambda>k. k * B) [0..<(N + B - 1) div B]"
proof (induction N)
  case 0
  then show ?case using assms by simp
next
  case (Suc N)
  have s: "(Suc N + B - 1) div B = Suc (N div B)" using assms by simp
  show ?case
  proof (cases "N mod B = 0")
    case True
    then have "(N + B - 1) div B = N div B" using ceil_div_cases [OF assms] by simp
    moreover have "N div B * B = N" using True by (simp add: mod_0_imp_dvd)
    ultimately show ?thesis using Suc True s by simp
  next
    case False
    then have "(N + B - 1) div B = Suc (N div B)" using ceil_div_cases [OF assms] by simp
    then show ?thesis using Suc False s by simp
  qed
qed

lemma concat_slices:
  "concat (map (\<lambda>k. py_slice (k * B) B xs) [0..<m]) = take (m * B) xs"
proof (induction m)
  case 0
  then show ?case by simp
next
  case (Suc m)
  have "take (m * B) xs @ take B (drop (m * B) xs) = take (m * B + B) xs"
    by (simp add: take_add)
  then show ?case using Suc by (simp add: py_slice_def add.commute)
qed

lemma ceil_div_covers:
  fixes B :: nat
  assumes "0 < B"
  shows "N \<le> (N + B - 1) div B * B"
proof -
  have e: "B * (N div B) + N mod B = N" by simp
  have r: "N mod B < B" using assms by simp
  show ?thesis
  proof (cases "N mod B = 0")
    case True
    then show ?thesis using ceil_div_cases [OF assms, of N] e by (simp add: mult.commute)
  next
    case False
    have "N \<le> B * (N div B) + B" using e r by linarith
    then show ?thesis using ceil_div_cases [OF assms, of N] False by (simp add: mult.commute)
  qed
qed

lemma batches_partition:
  fixes B :: nat
  assumes "0 < B"
  shows "concat (map (\<lambda>n. py_slice n B xs) (filter (\<lambda>n. n mod B = 0) [0..<length xs])) = xs"
proof -
  have "concat (map (\<lambda>n. py_slice n B xs) (filter (\<lambda>n. n mod B = 0) [0..<length xs])) =
        concat (map (\<lambda>k. py_slice (k * B) B xs) [0..<(length xs + B - 1) div B])"
    by (simp add: range_starts [OF assms] comp_def)
  also have "\<dots> = take ((length xs + B - 1) div B * B) xs" by (rule concat_slices)
  also have "\<dots> = xs" using ceil_div_covers [OF assms, of "length xs"] by simp
  finally show ?thesis .
qed

lemma start_below:
  fixes B :: nat
  assumes "0 < B" "k < (N + B - 1) div B"
  shows "k * B < N"
proof -
  have e: "B * (N div B) + N mod B = N" by simp
  show ?thesis
  proof (cases "N mod B = 0")
    case True
    then have "Suc k \<le> N div B" using assms ceil_div_cases [OF assms(1), of N] by simp
    then have "B * Suc k \<le> B * (N div B)" using mult_le_mono2 by blast
    moreover have "B * Suc k = B * k + B" by simp
    ultimately have "B * k < N" using e True assms(1) by linarith
    then show ?thesis by (simp add: mult.commute)
  next
    case False
    then have "k \<le> N div B" using assms ceil_div_cases [OF assms(1), of N] by simp
    then have "B * k \<le> B * (N div B)" using mult_le_mono2 by blast
    moreover have "B * (N div B) < N" using e False by linarith
    ultimately have "B * k < N" by linarith
    then show ?thesis by (simp add: mult.commute)
  qed
qed




section \<open>The start of a run\<close>

lemma sorted_starts: "sorted_wrt (<) (filter P [0..<N])"
  by (rule sorted_wrt_filter) (simp add: sorted_wrt_upt)

lemma py_range_sorted: "py_range N B = Inr ns \<Longrightarrow> sorted_wrt (<) ns"
  by (auto simp: py_range_def sorted_starts split: if_splits)

lemma render_init_state:
  assumes "render_init a ow = Inr s0"
  shows "py_range (length (latents a)) (batch_size a) = Inr (todo s0)"
    and "main s0 = Looping" and "splitter s0 = SNew" and "renderer s0 = RNew"
    and "split_queue s0 = []" and "render_queue s0 = []" and "stdin s0 = []"
    and "\<not> stdin_closed s0" and "\<not> waited s0"
    and "gen_params s0 = named_parameters a"
    and "enc_size (video s0) = output_size_of (out_size a)"
    and "rewrites' a = [] \<longrightarrow> rewrite_dict s0 = []"
  using assms
  by (auto simp: render_init_def start_encoder_def Let_def split: sum.splits prod.splits if_splits)

lemma render_init_consistent:
  assumes "render_init a ow = Inr s0"
  shows "consistent a s0"
  using render_init_state [OF assms] py_range_sorted [of "length (latents a)" "batch_size a" "todo s0"]
  by (simp add: consistent_def renderer_ok_def producing_def)

lemma render_init_stream:
  assumes "render_init a ow = Inr s0"
  shows "stream a r s0 = map (written r) (concat (map split_frames (future a s0 (todo s0))))"
  using render_init_state [OF assms] by (simp add: stream_def putting_def pending_def)

lemma render_init_succeeds:
  assumes "duration a \<noteq> 0" "rewrites' a = []" "setup_truncation (truncation a) = Inr t"
    "batch_size a \<noteq> 0"
  shows "\<exists>s0. render_init a ow = Inr s0"
  using assms by (simp add: render_init_def start_encoder_def Let_def py_range_def)

lemma truncation_batch_setup:
  "truncation_batch n b t = Inr tb \<Longrightarrow> setup_truncation t = Inr t"
  by (cases t) (auto simp: truncation_batch_def setup_truncation_def)

section \<open>Runs in which the generator behaves\<close>

lemma run_batch_plain:
  assumes "rewrite_dict s = []" "gen_params s = named_parameters a"
    "truncation_batch n (nat (batch_size a)) (truncation a) = Inr tb"
  shows "run_batch a s n =
     (case generator a (named_parameters a) (batch_call a n tb) of
        Inl e \<Rightarrow> Inl e | Inr out \<Rightarrow> Inr (s, out))"
  using assms by (simp add: run_batch_def split: sum.splits)

lemma sorted_head_less:
  assumes "sorted_wrt (<) (n # ns)" "m \<in> set (n # ns)" "m \<noteq> n"
  shows "n < m \<and> m \<in> set ns"
  using assms by auto

lemma main_step_on_track:
  assumes st: "main_step a s = Some s'" and c: "consistent a s" and h: "on_track a ns fl s"
    and ok: "\<forall>n\<in>set ns. (\<forall>nf ef. fl = Some (nf, ef) \<longrightarrow> n < nf) \<longrightarrow>
       truncation_batch n (nat (batch_size a)) (truncation a) = Inr (tb n) \<and>
       generator a (named_parameters a) (batch_call a n (tb n)) = Inr (out n)"
    and bad: "\<forall>nf ef. fl = Some (nf, ef) \<longrightarrow> nf \<noteq> 0 \<and>
       truncation_batch nf (nat (batch_size a)) (truncation a) = Inr (tb nf) \<and>
       generator a (named_parameters a) (batch_call a nf (tb nf)) = Inl ef"
  shows "on_track a ns fl s'"
proof -
  have rd: "rewrite_dict s = []" and gp: "gen_params s = named_parameters a"
    and sub: "set (todo s) \<subseteq> set ns"
    and new: "splitter s = SNew \<longrightarrow> main s = Looping \<and> todo s \<noteq> [] \<and> hd (todo s) = 0"
    using h by (simp_all add: on_track_def)
  have srt: "sorted_wrt (<) (todo s)" using c by (simp add: consistent_def)
  have rn: "renderer s = RNew \<longleftrightarrow> splitter s = SNew" using c by (auto simp: consistent_def)
  \<comment> \<open>what the batch at the head of the list does\<close>
  have head: "(case fl of None \<Rightarrow> run_batch a s n = Inr (s, out n)
      | Some (nf, ef) \<Rightarrow> (n = nf \<longrightarrow> run_batch a s n = Inl ef) \<and>
          (n \<noteq> nf \<longrightarrow> run_batch a s n = Inr (s, out n) \<and> nf \<in> set rest))"
    if td: "todo s = n # rest" and lp: "main s = Looping" for n rest
  proof (cases fl)
    case None
    have "n \<in> set ns" using sub td by auto
    with ok None have "truncation_batch n (nat (batch_size a)) (truncation a) = Inr (tb n)"
      "generator a (named_parameters a) (batch_call a n (tb n)) = Inr (out n)" by auto
    with run_batch_plain [OF rd gp this(1)] None show ?thesis by simp
  next
    case (Some p)
    obtain nf ef where p: "p = (nf, ef)" by (cases p)
    have nf: "nf \<in> set (todo s)" using h lp Some p by (simp add: on_track_def)
    show ?thesis
    proof (cases "n = nf")
      case True
      from bad Some p have "truncation_batch nf (nat (batch_size a)) (truncation a) = Inr (tb nf)"
        "generator a (named_parameters a) (batch_call a nf (tb nf)) = Inl ef" by auto
      with run_batch_plain [OF rd gp this(1)] True Some p show ?thesis by simp
    next
      case False
      from sorted_head_less [of n rest nf] srt td nf False
      have lt: "n < nf" and mem: "nf \<in> set rest" by auto
      have "n \<in> set ns" using sub td by auto
      with ok Some p lt have "truncation_batch n (nat (batch_size a)) (truncation a) = Inr (tb n)"
        "generator a (named_parameters a) (batch_call a n (tb n)) = Inr (out n)" by auto
      with run_batch_plain [OF rd gp this(1)] False Some p mem show ?thesis by simp
    qed
  qed
  from st show ?thesis
  proof (cases rule: main_stepE)
    case finish
    then have "splitter s \<noteq> SNew" using new by auto
    moreover have "fl = None"
    proof (cases fl)
      case (Some p)
      with h finish show ?thesis by (auto simp: on_track_def)
    qed simp
    ultimately show ?thesis using finish h by (simp add: on_track_def)
  next
    case (fail n rest e)
    from head [OF fail(2,1)] fail(3) obtain nf where "fl = Some (nf, e)" "n = nf"
      by (cases fl) (auto split: if_splits)
    moreover have "splitter s \<noteq> SNew"
    proof
      assume "splitter s = SNew"
      with new fail(2) have "n = 0" by simp
      then show False using bad \<open>fl = Some (nf, e)\<close> \<open>n = nf\<close> by auto
    qed
    ultimately show ?thesis using fail h by (simp add: on_track_def)
  next
    case (start rest params out')
    from head [OF start(2,1)] start(3) have "params = named_parameters a"
      by (cases fl) (auto split: if_splits dest: arg_cong [where f = gen_params] simp: gp)
    moreover from head [OF start(2,1)] start(3)
    have "case fl of None \<Rightarrow> True | Some (nf, ef) \<Rightarrow> nf \<in> set rest"
      by (cases fl) (auto split: if_splits)
    ultimately show ?thesis using start h by (auto simp: on_track_def split: option.splits)
  next
    case (restart rest params out')
    then show ?thesis using c by (auto simp: consistent_def)
  next
    case (batch n rest params out')
    from head [OF batch(2,1)] batch(4) have "params = named_parameters a"
      by (cases fl) (auto split: if_splits dest: arg_cong [where f = gen_params] simp: gp)
    moreover from head [OF batch(2,1)] batch(4)
    have "case fl of None \<Rightarrow> True | Some (nf, ef) \<Rightarrow> nf \<in> set rest"
      by (cases fl) (auto split: if_splits)
    moreover have "splitter s \<noteq> SNew" using new batch by auto
    ultimately show ?thesis using batch h by (auto simp: on_track_def split: option.splits)
  next
    case join1_raise
    then show ?thesis using new by simp
  next
    case join1
    then show ?thesis using h by (auto simp: on_track_def split: option.splits)
  next
    case join2_raise
    then show ?thesis using new rn by simp
  next
    case join2
    then show ?thesis using h by (auto simp: on_track_def split: option.splits)
  qed
qed





lemma future_all:
  assumes "rewrite_dict s = []" "gen_params s = named_parameters a"
    and "\<forall>n\<in>set xs. truncation_batch n (nat (batch_size a)) (truncation a) = Inr (tb n) \<and>
       generator a (named_parameters a) (batch_call a n (tb n)) = Inr (out n)"
  shows "future a s xs = map out xs"
  using assms(3)
proof (induction xs)
  case Nil
  show ?case by simp
next
  case (Cons n xs)
  then have "truncation_batch n (nat (batch_size a)) (truncation a) = Inr (tb n)"
    "generator a (named_parameters a) (batch_call a n (tb n)) = Inr (out n)" by auto
  with run_batch_plain [OF assms(1,2) this(1)] have "run_batch a s n = Inr (s, out n)" by simp
  then show ?case using Cons by simp
qed


lemma ceiling_batches:
  fixes B :: nat
  assumes "0 < B"
  shows "int ((N + B - 1) div B) = \<lceil>(of_nat N :: rat) / of_nat B\<rceil>"
proof (rule sym, rule ceiling_unique)
  let ?m = "(N + B - 1) div B"
  have Bp: "(0::rat) < of_nat B" using assms by simp
  have "N \<le> ?m * B" by (rule ceil_div_covers [OF assms])
  then have "(of_nat N :: rat) \<le> of_nat (?m * B)" using of_nat_le_iff by blast
  then show "(of_nat N :: rat) / of_nat B \<le> of_int (int ?m)"
    using Bp by (simp add: pos_divide_le_eq)
  show "of_int (int ?m) - 1 < (of_nat N :: rat) / of_nat B"
  proof (cases ?m)
    case 0
    have "(0::rat) \<le> of_nat N / of_nat B" by simp
    then have "(- 1 :: rat) < of_nat N / of_nat B" by linarith
    then show ?thesis using 0 by simp
  next
    case (Suc k)
    then have "k < ?m" by simp
    from start_below [OF assms this] have "(of_nat (k * B) :: rat) < of_nat N"
      using of_nat_less_iff by blast
    then show ?thesis using Bp Suc by (simp add: pos_less_divide_eq)
  qed
qed


lemma main_looping_steps: "main s = Looping \<Longrightarrow> main_step a s \<noteq> None"
  by (auto simp: main_step_def Let_def split: list.splits sum.splits prod.splits)

lemma terminal_not_looping: "terminal a r s \<Longrightarrow> main s \<noteq> Looping"
  using main_looping_steps [of s a] by (auto simp: terminal_def step_def)


lemma length_concat_frames:
  assumes "\<forall>n\<in>set ns. length (f n) = length (g n)"
  shows "length (concat (map f ns)) = length (concat (map g ns))"
proof -
  have "map length (map f ns) = map length (map g ns)" using assms by simp
  then show ?thesis by (simp only: length_concat)
qed




section \<open>The example run\<close>

lemma example_starts: "filter (\<lambda>n. n mod 2 = 0) [0..<3] = [0, 2::nat]"
  by code_simp

lemma example_init: "render_init example_args None = Inr example_initial_state"
  by (simp add: render_init_def example_args_def start_encoder_def Let_def setup_truncation_def
      py_range_def output_size_of_def example_starts example_initial_state_def)



lemma example_generator_ok:
  "\<forall>n\<in>set (filter (\<lambda>n. n mod nat (batch_size example_args) = 0) [0..<length (latents example_args)]).
     truncation_batch n (nat (batch_size example_args)) (truncation example_args) = Inr (PyFloat 1) \<and>
     generator example_args (named_parameters example_args) (batch_call example_args n (PyFloat 1)) =
       Inr (example_outputs n) \<and>
     length (example_outputs n) = length (styles (batch_call example_args n (PyFloat 1)))"
  by (simp add: example_args_def example_starts truncation_batch_def batch_call_def
      example_generator_def example_outputs_def)



section \<open>A call without latents\<close>

lemma step_never_started:
  assumes "step a r t s = Some s'"
    and "todo s = []" "splitter s = SNew" "renderer s = RNew"
    and "main s = Looping \<or> main s = JoinSplitter \<or> main s = Raised RuntimeError"
  shows "todo s' = [] \<and> splitter s' = SNew \<and> renderer s' = RNew \<and>
         split_queue s' = split_queue s \<and> stdin s' = stdin s \<and>
         stdin_closed s' = stdin_closed s \<and> waited s' = waited s \<and>
         (main s' = Looping \<or> main s' = JoinSplitter \<or> main s' = Raised RuntimeError)"
proof (cases t)
  case Main
  with assms(1) have "main_step a s = Some s'" by (simp add: step_def)
  then show ?thesis using assms(2-) by (cases rule: main_stepE) auto
next
  case Splitter
  with assms(1) have "split_step s = Some s'" by (simp add: step_def)
  then show ?thesis using assms(3) by (cases rule: split_stepE) auto
next
  case Renderer
  with assms(1) have "render_step a r s = Some s'" by (simp add: step_def)
  then show ?thesis using assms(4) by (cases rule: render_stepE) auto
qed

lemma exec_never_started:
  assumes "exec a r sched s = Some s'"
    and "todo s = []" "splitter s = SNew" "renderer s = RNew"
    and "main s = Looping \<or> main s = JoinSplitter \<or> main s = Raised RuntimeError"
  shows "todo s' = [] \<and> splitter s' = SNew \<and> renderer s' = RNew \<and>
         split_queue s' = split_queue s \<and> stdin s' = stdin s \<and>
         stdin_closed s' = stdin_closed s \<and> waited s' = waited s \<and>
         (main s' = Looping \<or> main s' = JoinSplitter \<or> main s' = Raised RuntimeError)"
  using assms
proof (induction sched arbitrary: s)
  case Nil
  then show ?case by simp
next
  case (Cons t ts)
  then obtain s1 where 1: "step a r t s = Some s1" and 2: "exec a r ts s1 = Some s'"
    by (auto split: option.splits)
  note n = step_never_started [OF 1 Cons.prems(2-5)]
  from Cons.IH [OF 2] n show ?case by simp
qed

text \<open>
  Claim C10. When \<^verbatim>\<open>render\<close> is called without any latents and its set-up succeeds, the
  loop has no batch to run: in every state of every run both workers are unstarted,
  nothing is on the way to the formatter, nothing is written and the encoder's input is
  neither closed nor waited for; \<^verbatim>\<open>render\<close> never returns, and every complete run ends
  with the \<^verbatim>\<open>RuntimeError\<close> of joining a thread that was not started. So a run in which
  \<^verbatim>\<open>render\<close> returns has at least one latent.
\<close>

theorem no_latents_join_raises:
  assumes "latents a = []" "render_init a ow = Inr s0"
  shows "todo s0 = [] \<and>
     (\<exists>sched s. exec a r sched s0 = Some s \<and> terminal a r s) \<and>
     (\<forall>sched s. exec a r sched s0 = Some s \<longrightarrow>
        splitter s = SNew \<and> renderer s = RNew \<and> split_queue s = [] \<and> stdin s = [] \<and>
        \<not> stdin_closed s \<and> \<not> waited s \<and> main s \<noteq> Returned \<and>
        (terminal a r s \<longrightarrow> main s = Raised RuntimeError))"
proof -
  note init = render_init_state [OF assms(2)]
  have t: "todo s0 = []" using init(1) assms(1) by (auto simp: py_range_def split: if_splits)
  have "splitter s = SNew \<and> renderer s = RNew \<and> split_queue s = [] \<and> stdin s = [] \<and>
        \<not> stdin_closed s \<and> \<not> waited s \<and> main s \<noteq> Returned \<and>
        (terminal a r s \<longrightarrow> main s = Raised RuntimeError)"
    if run: "exec a r sched s0 = Some s" for sched s
  proof -
    from exec_never_started [OF run t init(3,4)] init
    have n: "splitter s = SNew" "renderer s = RNew" "split_queue s = []" "stdin s = []"
      "\<not> stdin_closed s" "\<not> waited s"
      "main s = Looping \<or> main s = JoinSplitter \<or> main s = Raised RuntimeError"
      by simp_all
    have "main s = Raised RuntimeError" if "terminal a r s"
    proof -
      have "main_step a s = None" using that by (simp add: terminal_def step_def)
      moreover have "main s \<noteq> Looping" using that by (rule terminal_not_looping)
      ultimately show ?thesis using n(1,7) by (auto simp: main_step_def)
    qed
    then show ?thesis using n by auto
  qed
  moreover have "\<exists>sched s. exec a r sched s0 = Some s \<and> terminal a r s" by (rule run_to_end)
  ultimately show ?thesis using t by blast
qed

lemma empty_init: "render_init empty_args None = Inr empty_initial_state"
  by (simp add: render_init_def empty_args_def example_args_def start_encoder_def Let_def
      setup_truncation_def py_range_def output_size_of_def example_initial_state_def
      empty_initial_state_def)

lemma empty_run:
  "exec empty_args blank_resize [Main, Main] empty_initial_state =
     Some (empty_initial_state\<lparr>main := Raised RuntimeError\<rparr>)"
  by (simp add: step_def main_step_def empty_initial_state_def example_initial_state_def)

lemma empty_terminal:
  "terminal empty_args blank_resize (empty_initial_state\<lparr>main := Raised RuntimeError\<rparr>)"
  by (simp add: terminal_def step_def main_step_def split_step_def render_step_def
      empty_initial_state_def example_initial_state_def)

theorem no_latents_join_raises_witness:
  "latents empty_args = [] \<and> render_init empty_args None = Inr empty_initial_state \<and>
   exec empty_args blank_resize [Main, Main] empty_initial_state =
     Some (empty_initial_state\<lparr>main := Raised RuntimeError\<rparr>) \<and>
   terminal empty_args blank_resize (empty_initial_state\<lparr>main := Raised RuntimeError\<rparr>) \<and>
   splitter (empty_initial_state\<lparr>main := Raised RuntimeError\<rparr>) = SNew \<and>
   renderer (empty_initial_state\<lparr>main := Raised RuntimeError\<rparr>) = RNew \<and>
   stdin (empty_initial_state\<lparr>main := Raised RuntimeError\<rparr>) = [] \<and>
   stdin_closed (empty_initial_state\<lparr>main := Raised RuntimeError\<rparr>) = False"
proof -
  have h: "latents empty_args = []" by (simp add: empty_args_def)
  from no_latents_join_raises [OF h empty_init, of blank_resize] empty_run
  have "splitter (empty_initial_state\<lparr>main := Raised RuntimeError\<rparr>) = SNew \<and>
        renderer (empty_initial_state\<lparr>main := Raised RuntimeError\<rparr>) = RNew \<and>
        stdin (empty_initial_state\<lparr>main := Raised RuntimeError\<rparr>) = [] \<and>
        \<not> stdin_closed (empty_initial_state\<lparr>main := Raised RuntimeError\<rparr>)"
    by blast
  then show ?thesis using h empty_init empty_run empty_terminal by simp
qed


section \<open>A scheduler that dies\<close>












section \<open>How much the queues hold\<close>

lemma step_queue_bound:
  assumes "step a r t s = Some s'"
  shows "length (split_queue s') + length (todo s') \<le> length (split_queue s) + length (todo s)"
proof (cases t)
  case Main
  with assms have "main_step a s = Some s'" by (simp add: step_def)
  then show ?thesis by (cases rule: main_stepE) auto
next
  case Splitter
  with assms have "split_step s = Some s'" by (simp add: step_def)
  then show ?thesis by (cases rule: split_stepE) auto
next
  case Renderer
  with assms have "render_step a r s = Some s'" by (simp add: step_def)
  then show ?thesis by (cases rule: render_stepE) auto
qed

lemma exec_queue_bound:
  "exec a r sched s = Some s' \<Longrightarrow>
   length (split_queue s') + length (todo s') \<le> length (split_queue s) + length (todo s)"
proof (induction sched arbitrary: s)
  case Nil
  then show ?case by simp
next
  case (Cons t ts)
  then obtain s1 where 1: "step a r t s = Some s1" and 2: "exec a r ts s1 = Some s'"
    by (auto split: option.splits)
  from Cons.IH [OF 2] step_queue_bound [OF 1] show ?case by simp
qed

lemma put_never_waits:
  "(main s = Looping \<longrightarrow> step a r Main s \<noteq> None) \<and>
   (\<forall>fs. splitter s = SPut fs \<longrightarrow> step a r Splitter s \<noteq> None)"
  using main_looping_steps [of s a]
  by (auto simp: step_def split_step_def split: list.splits)

lemma main_only:
  assumes ok: "\<forall>n\<in>set ns.
       truncation_batch n (nat (batch_size a)) (truncation a) = Inr (tb n) \<and>
       generator a (named_parameters a) (batch_call a n (tb n)) = Inr (out n)"
  shows "consistent a s \<Longrightarrow> on_track a ns None s \<Longrightarrow> main s = Looping \<Longrightarrow> todo s = xs \<Longrightarrow>
    \<exists>s'. exec a r (replicate (length xs) Main) s = Some s' \<and>
         length (split_queue s') = length (split_queue s) + length xs"
proof (induction xs arbitrary: s)
  case Nil
  then show ?case by simp
next
  case (Cons n rest)
  have ok': "\<forall>n\<in>set ns. (\<forall>nf ef. (None :: (nat \<times> error) option) = Some (nf, ef) \<longrightarrow> n < nf) \<longrightarrow>
       truncation_batch n (nat (batch_size a)) (truncation a) = Inr (tb n) \<and>
       generator a (named_parameters a) (batch_call a n (tb n)) = Inr (out n)"
    using ok by blast
  have bad: "\<forall>nf ef. (None :: (nat \<times> error) option) = Some (nf, ef) \<longrightarrow> nf \<noteq> 0 \<and>
       truncation_batch nf (nat (batch_size a)) (truncation a) = Inr (tb nf) \<and>
       generator a (named_parameters a) (batch_call a nf (tb nf)) = Inl ef"
    by simp
  obtain s1 where 1: "main_step a s = Some s1"
    using main_looping_steps [OF Cons.prems(3), of a] by auto
  have c1: "consistent a s1" by (rule main_step_consistent [OF 1 Cons.prems(1)])
  have t1: "on_track a ns None s1"
    by (rule main_step_on_track [OF 1 Cons.prems(1,2) ok' bad])
  then have nr: "\<forall>e. main s1 \<noteq> Raised e" by (simp add: on_track_def)
  from 1 have "main s1 = Looping \<and> todo s1 = rest \<and>
      length (split_queue s1) = Suc (length (split_queue s))"
    using nr Cons.prems(3,4) by (cases rule: main_stepE) auto
  with Cons.IH [OF c1 t1, of ] obtain s' where
    "exec a r (replicate (length rest) Main) s1 = Some s'"
    "length (split_queue s') = Suc (length (split_queue s)) + length rest"
    by auto
  then show ?case using 1 by (auto simp: step_def)
qed

lemma healthy_start:
  fixes a :: "('v, 't, 'p::floor_ceiling) render_args"
  assumes N: "latents a \<noteq> []" and B: "0 < batch_size a"
    and rw: "rewrites' a = []" and d: "duration a \<noteq> 0"
    and gen: "\<forall>n\<in>set (filter (\<lambda>n. n mod nat (batch_size a) = 0) [0..<length (latents a)]).
        truncation_batch n (nat (batch_size a)) (truncation a) = Inr (tb n) \<and>
        generator a (named_parameters a) (batch_call a n (tb n)) = Inr (out n) \<and>
        length (out n) = length (styles (batch_call a n (tb n)))"
  obtains s0 where "render_init a ow = Inr s0"
    and "todo s0 = filter (\<lambda>n. n mod nat (batch_size a) = 0) [0..<length (latents a)]"
    and "consistent a s0"
    and "on_track a (filter (\<lambda>n. n mod nat (batch_size a) = 0) [0..<length (latents a)]) None s0"
    and "int (length (todo s0)) = \<lceil>(of_nat (length (latents a)) :: rat) / of_int (batch_size a)\<rceil>"
    and "length (stream a r s0) = length (latents a)"
proof -
  let ?B = "nat (batch_size a)"
  let ?N = "length (latents a)"
  let ?ns = "filter (\<lambda>n. n mod ?B = 0) [0..<?N]"
  let ?m = "(?N + ?B - 1) div ?B"
  let ?g = "\<lambda>n. map (written r) (split_frames (out n))"
  have Bp: "0 < ?B" using B by simp
  have Np: "0 < ?N" using N by simp
  have ns: "?ns = map (\<lambda>k. k * ?B) [0..<?m]" by (rule range_starts [OF Bp])
  have mp: "0 < ?m"
  proof (rule ccontr)
    assume "\<not> 0 < ?m"
    then have "?m = 0" by simp
    with ceil_div_covers [OF Bp, of ?N] Np show False by simp
  qed
  have zero: "0 \<in> set ?ns" using Np by simp
  from gen zero have "truncation_batch 0 ?B (truncation a) = Inr (tb 0)" by blast
  then have "setup_truncation (truncation a) = Inr (truncation a)" by (rule truncation_batch_setup)
  with render_init_succeeds [OF d rw _ , of "truncation a" ow] B
  obtain s0 where s0: "render_init a ow = Inr s0" by auto
  note init = render_init_state [OF s0]
  have todo: "todo s0 = ?ns" using init(1) B by (simp add: py_range_def)
  have c0: "consistent a s0" by (rule render_init_consistent [OF s0])
  have hd0: "hd ?ns = 0" using mp by (simp add: ns hd_map upt_conv_Cons)
  have ne: "?ns \<noteq> []" using mp by (simp add: ns)
  have t0: "on_track a ?ns None s0"
    unfolding on_track_def using init(2,10,12) rw todo ne hd0 by simp
  have ceil: "int (length (todo s0)) = \<lceil>(of_nat ?N :: rat) / of_int (batch_size a)\<rceil>"
  proof -
    have "(of_nat ?B :: rat) = of_int (batch_size a)" using B by simp
    moreover have "length ?ns = ?m" by (simp add: ns)
    ultimately show ?thesis using ceiling_batches [OF Bp, of ?N] todo by simp
  qed
  have lens: "\<forall>n\<in>set ?ns. length (?g n) = length (py_slice n ?B (latents a))"
    using gen by (simp add: length_split_frames batch_call_def)
  have fut: "future a s0 ?ns = map out ?ns"
    using init(10,12) rw gen by (intro future_all [where tb = tb]) auto
  have all: "stream a r s0 = concat (map ?g ?ns)"
    using render_init_stream [OF s0, of r] todo fut by (simp add: map_concat comp_def)
  have "length (concat (map ?g ?ns)) = ?N"
    using length_concat_frames [OF lens] batches_partition [OF Bp, of "latents a"] by simp
  then have "length (stream a r s0) = ?N" using all by simp
  with s0 todo c0 t0 ceil that show ?thesis by blast
qed

lemma queue_fills:
  fixes a :: "('v, 't, 'p::floor_ceiling) render_args"
  assumes N: "latents a \<noteq> []" and B: "0 < batch_size a"
    and rw: "rewrites' a = []" and d: "duration a \<noteq> 0"
    and gen: "\<forall>n\<in>set (filter (\<lambda>n. n mod nat (batch_size a) = 0) [0..<length (latents a)]).
        truncation_batch n (nat (batch_size a)) (truncation a) = Inr (tb n) \<and>
        generator a (named_parameters a) (batch_call a n (tb n)) = Inr (out n) \<and>
        length (out n) = length (styles (batch_call a n (tb n)))"
  shows "\<exists>s0 sched s. render_init a ow = Inr s0 \<and> exec a r sched s0 = Some s \<and>
     length (split_queue s) = length (todo s0) \<and>
     int (length (todo s0)) = \<lceil>(of_nat (length (latents a)) :: rat) / of_int (batch_size a)\<rceil>"
proof -
  from healthy_start [OF assms, of ow r] obtain s0 where s0: "render_init a ow = Inr s0"
    and todo: "todo s0 = filter (\<lambda>n. n mod nat (batch_size a) = 0) [0..<length (latents a)]"
    and c0: "consistent a s0"
    and t0: "on_track a (filter (\<lambda>n. n mod nat (batch_size a) = 0) [0..<length (latents a)]) None s0"
    and ceil: "int (length (todo s0)) = \<lceil>(of_nat (length (latents a)) :: rat) / of_int (batch_size a)\<rceil>"
    by blast
  note init = render_init_state [OF s0]
  have ok: "\<forall>n\<in>set (filter (\<lambda>n. n mod nat (batch_size a) = 0) [0..<length (latents a)]).
       truncation_batch n (nat (batch_size a)) (truncation a) = Inr (tb n) \<and>
       generator a (named_parameters a) (batch_call a n (tb n)) = Inr (out n)"
    using gen by blast
  from main_only [OF ok c0 t0 init(2) refl, of r] init(5)
  obtain s where "exec a r (replicate (length (todo s0)) Main) s0 = Some s"
    "length (split_queue s) = length (todo s0)" by auto
  with s0 ceil show ?thesis by blast
qed


lemma long_generator_ok:
  "\<forall>n\<in>set (filter (\<lambda>n. n mod nat (batch_size (long_args N)) = 0) [0..<length (latents (long_args N))]).
     truncation_batch n (nat (batch_size (long_args N))) (truncation (long_args N)) = Inr (PyFloat 1) \<and>
     generator (long_args N) (named_parameters (long_args N)) (batch_call (long_args N) n (PyFloat 1)) =
       Inr (map (\<lambda>l. [[[of_nat l / 2 - 1]]]) (py_slice n 1 [0..<N])) \<and>
     length (map (\<lambda>l. [[[of_nat l / 2 - 1 :: rat]]]) (py_slice n 1 [0..<N])) =
       length (styles (batch_call (long_args N) n (PyFloat 1)))"
  by (simp add: long_args_def example_args_def truncation_batch_def batch_call_def
      example_generator_def)

lemma long_queue:
  "\<exists>s0 sched s. render_init (long_args (Suc cap)) None = Inr s0 \<and>
     exec (long_args (Suc cap)) blank_resize sched s0 = Some s \<and>
     length (split_queue s) = Suc cap"
proof -
  let ?a = "long_args (Suc cap)"
  have h1: "latents ?a \<noteq> []" and h2: "0 < batch_size ?a" and h3: "rewrites' ?a = []"
    and h4: "duration ?a \<noteq> 0"
    by (simp_all add: long_args_def example_args_def)
  from queue_fills [OF h1 h2 h3 h4 long_generator_ok, of None blank_resize]
  obtain s0 sched s where s0: "render_init ?a None = Inr s0"
    and run: "exec ?a blank_resize sched s0 = Some s"
    and len: "length (split_queue s) = length (todo s0)"
    and ceil: "int (length (todo s0)) =
        \<lceil>(of_nat (length (latents ?a)) :: rat) / of_int (batch_size ?a)\<rceil>"
    by blast
  have "(of_nat (length (latents ?a)) :: rat) / of_int (batch_size ?a) = of_nat (Suc cap)"
    by (simp add: long_args_def example_args_def)
  then have "int (length (todo s0)) = int (Suc cap)"
    using ceil by (simp only: ceiling_of_nat)
  then have "length (todo s0) = Suc cap" by (simp only: of_nat_eq_iff)
  with s0 run len show ?thesis by auto
qed

text \<open>
  Claim C8 says that the number of units waiting in each channel stays below a fixed
  capacity. It does not: both queues are made by \<^verbatim>\<open>queue.Queue()\<close> without a size, and for
  every capacity there is a run (with more latents than the capacity, in batches of one, the
  main thread running ahead of the splitter) in which the first channel holds more.
\<close>

theorem queues_unbounded_counterexample:
  "\<not> (\<exists>cap. \<forall>N s0 sched s.
        render_init (long_args N) None = Inr s0 \<and>
        exec (long_args N) blank_resize sched s0 = Some s \<longrightarrow>
        length (split_queue s) < cap \<and> length (render_queue s) < cap)"
proof
  assume "\<exists>cap. \<forall>N s0 sched s.
        render_init (long_args N) None = Inr s0 \<and>
        exec (long_args N) blank_resize sched s0 = Some s \<longrightarrow>
        length (split_queue s) < cap \<and> length (render_queue s) < cap"
  then obtain cap where cap: "\<And>N s0 sched s.
        render_init (long_args N) None = Inr s0 \<Longrightarrow>
        exec (long_args N) blank_resize sched s0 = Some s \<Longrightarrow>
        length (split_queue s) < cap"
    by blast
  from long_queue [of cap] obtain s0 sched s where
    "render_init (long_args (Suc cap)) None = Inr s0"
    "exec (long_args (Suc cap)) blank_resize sched s0 = Some s"
    "length (split_queue s) = Suc cap"
    by blast
  with cap [of "Suc cap" s0 sched s] show False by simp
qed

text \<open>
  Claim C8 as amended: the two channels are unbounded queues. A \<^verbatim>\<open>put\<close> never waits (the
  main thread can always take its step while it is in its loop, and the splitter whenever it
  has a frame to put), and what limits the number of waiting units is the size of the run:
  for a call as in C1, the first channel never holds more than the \<open>ceil(N/B)\<close> batches of
  the run, and holds all of them in some run; the second never holds more than \<open>N\<close> frames.
\<close>

theorem queues_hold_the_whole_run:
  fixes a :: "('v, 't, 'p::floor_ceiling) render_args"
  assumes N: "latents a \<noteq> []" and B: "0 < batch_size a"
    and rw: "rewrites' a = []" and d: "duration a \<noteq> 0"
    and gen: "\<forall>n\<in>set (filter (\<lambda>n. n mod nat (batch_size a) = 0) [0..<length (latents a)]).
        truncation_batch n (nat (batch_size a)) (truncation a) = Inr (tb n) \<and>
        generator a (named_parameters a) (batch_call a n (tb n)) = Inr (out n) \<and>
        length (out n) = length (styles (batch_call a n (tb n)))"
  shows "\<exists>s0. render_init a ow = Inr s0 \<and>
      int (length (todo s0)) = \<lceil>(of_nat (length (latents a)) :: rat) / of_int (batch_size a)\<rceil> \<and>
      (\<forall>sched s. exec a r sched s0 = Some s \<longrightarrow>
          length (split_queue s) \<le> length (todo s0) \<and>
          length (render_queue s) \<le> length (latents a) \<and>
          (main s = Looping \<longrightarrow> step a r Main s \<noteq> None) \<and>
          (\<forall>fs. splitter s = SPut fs \<longrightarrow> step a r Splitter s \<noteq> None)) \<and>
      (\<exists>sched s. exec a r sched s0 = Some s \<and> length (split_queue s) = length (todo s0))"
proof -
  from healthy_start [OF assms, of ow r] obtain s0 where s0: "render_init a ow = Inr s0"
    and c0: "consistent a s0"
    and ceil: "int (length (todo s0)) = \<lceil>(of_nat (length (latents a)) :: rat) / of_int (batch_size a)\<rceil>"
    and len: "length (stream a r s0) = length (latents a)"
    by blast
  note init = render_init_state [OF s0]
  have bounds: "length (split_queue s) \<le> length (todo s0) \<and>
          length (render_queue s) \<le> length (latents a) \<and>
          (main s = Looping \<longrightarrow> step a r Main s \<noteq> None) \<and>
          (\<forall>fs. splitter s = SPut fs \<longrightarrow> step a r Splitter s \<noteq> None)"
    if run: "exec a r sched s0 = Some s" for sched s
  proof -
    have "length (split_queue s) \<le> length (todo s0)"
      using exec_queue_bound [OF run] init(5) by simp
    moreover have "length (render_queue s) \<le> length (latents a)"
    proof -
      have "length (render_queue s) \<le> length (stream a r s)" by (simp add: stream_def)
      then show ?thesis using exec_stream [OF run c0, of ] len by simp
    qed
    ultimately show ?thesis using put_never_waits [of s a r] by blast
  qed
  from queue_fills [OF assms, of ow r] s0
  have "\<exists>sched s. exec a r sched s0 = Some s \<and> length (split_queue s) = length (todo s0)"
    by auto
  with s0 ceil bounds show ?thesis by (intro exI [of _ s0]) blast
qed

lemma example_queued:
  "exec example_args blank_resize [Main, Main] example_initial_state = Some example_queued_state"
  by (simp add: step_def main_step_def run_batch_def truncation_batch_def batch_call_def
      example_args_def example_generator_def example_outputs_def py_slice_def Let_def
      example_initial_state_def example_queued_state_def)

theorem queues_hold_the_whole_run_witness:
  "latents example_args \<noteq> [] \<and> 0 < batch_size example_args \<and> rewrites' example_args = [] \<and>
   duration example_args \<noteq> 0 \<and>
   render_init example_args None = Inr example_initial_state \<and>
   exec example_args blank_resize [Main, Main] example_initial_state = Some example_queued_state \<and>
   length (todo example_initial_state) = 2 \<and>
   length (split_queue example_queued_state) = 2 \<and>
   length (split_queue example_queued_state) \<le> length (todo example_initial_state) \<and>
   length (render_queue example_queued_state) \<le> length (latents example_args)"
proof -
  have h1: "latents example_args \<noteq> []" and h2: "0 < batch_size example_args"
    and h3: "rewrites' example_args = []" and h4: "duration example_args \<noteq> 0"
    by (simp_all add: example_args_def)
  from queues_hold_the_whole_run [OF h1 h2 h3 h4 example_generator_ok, of None blank_resize]
  obtain s0 where s0: "render_init example_args None = Inr s0"
    and b: "\<forall>sched s. exec example_args blank_resize sched s0 = Some s \<longrightarrow>
          length (split_queue s) \<le> length (todo s0) \<and>
          length (render_queue s) \<le> length (latents example_args)"
    by blast
  have "s0 = example_initial_state" using s0 example_init by simp
  with b example_queued
  have "length (split_queue example_queued_state) \<le> length (todo example_initial_state) \<and>
        length (render_queue example_queued_state) \<le> length (latents example_args)"
    by blast
  moreover have "length (todo example_initial_state) = 2"
    "length (split_queue example_queued_state) = 2"
    by (simp_all add: example_initial_state_def example_queued_state_def)
  ultimately show ?thesis using h1 h2 h3 h4 example_init example_queued by blast
qed


section \<open>Rewrites\<close>


lemma setup_rewrites_result:
  "setup_rewrites pd items ow = Inr (rs, ow') \<Longrightarrow>
   rs = map (\<lambda>(param, transform, modulation). (param, ListObj [Function transform, TensorObj modulation])) items \<and>
   (\<exists>d d'. ow = Some d \<and> ow' = Some d' \<and> (\<forall>p. p \<in> fst ` set items \<or> p \<in> fst ` set d \<longrightarrow> p \<in> fst ` set d')) \<or> (items = [] \<and> rs = [] \<and> ow' = ow)"
proof (induction items arbitrary: ow rs ow')
  case Nil
  then show ?case by simp
next
  case (Cons it items)
  obtain param transform modulation where it: "it = (param, transform, modulation)"
    by (cases it) auto
  from Cons.prems it obtain w d rs1 where
    w: "map_of pd param = Some w" and d: "ow = Some d"
    and r: "setup_rewrites pd items (Some ((param, w) # d)) = Inr (rs1, ow')"
    and rs: "rs = (param, ListObj [Function transform, TensorObj modulation]) # rs1"
    by (auto split: option.splits sum.splits prod.splits)
  from Cons.IH [OF r] show ?case
    using it d rs by auto
qed

lemma apply_rewrites_list_fails:
  assumes "p \<in> fst ` set d"
  shows "apply_rewrites ((p, ListObj vs) # items) (Some d) n params = Inl TypeError"
proof -
  obtain w where "map_of d p = Some w"
    using assms by (metis domD dom_map_of_conv_image_fst)
  then show ?thesis by simp
qed



lemma step_params:
  assumes "step a r t s = Some s'"
  shows "rewrite_dict s' = rewrite_dict s \<and> original_weights s' = original_weights s \<and>
    (gen_params s' = gen_params s \<or>
     (\<exists>n s1 out. run_batch a s n = Inr (s1, out)))"
proof (cases t)
  case Main
  with assms have "main_step a s = Some s'" by (simp add: step_def)
  then show ?thesis by (cases rule: main_stepE) auto
next
  case Splitter
  with assms have "split_step s = Some s'" by (simp add: step_def)
  then show ?thesis by (cases rule: split_stepE) auto
next
  case Renderer
  with assms have "render_step a r s = Some s'" by (simp add: step_def)
  then show ?thesis by (cases rule: render_stepE) auto
qed

lemma exec_params:
  assumes "\<forall>n params. \<exists>e. apply_rewrites rd ow n params = Inl e"
  shows "exec a r sched s = Some s' \<Longrightarrow> rewrite_dict s = rd \<Longrightarrow> original_weights s = ow \<Longrightarrow>
    gen_params s' = gen_params s"
proof (induction sched arbitrary: s)
  case Nil
  then show ?case by simp
next
  case (Cons t ts)
  then obtain s1 where 1: "step a r t s = Some s1" and 2: "exec a r ts s1 = Some s'"
    by (auto split: option.splits)
  have "\<exists>e. run_batch a s n = Inl e" for n
  proof -
    obtain e where "apply_rewrites (rewrite_dict s) (original_weights s) n (gen_params s) = Inl e"
      using assms Cons.prems(2,3) by blast
    then show ?thesis by (simp add: run_batch_def)
  qed
  then have "\<not> (\<exists>n s1 out. run_batch a s n = Inr (s1, out))" by (metis Inl_Inr_False)
  with step_params [OF 1] have "rewrite_dict s1 = rd" "original_weights s1 = ow"
    "gen_params s1 = gen_params s"
    using Cons.prems(2,3) by blast+
  with Cons.IH [OF 2] show ?case by simp
qed

text \<open>
  Claim C2 says that for every batch the weight installed for an entry of the rewrites is
  the transform of the original snapshot. With a non-empty \<^verbatim>\<open>rewrites\<close>, the code installs
  nothing: \<^verbatim>\<open>original_weights\<close> is a name that the module does not define, so the snapshot
  of line 105 raises; and were the name defined as a dictionary, line 104 has replaced
  every entry by the list of transform and modulation, and calling that list in line 135
  raises in the first batch, before any weight is set: in no state of any run do the
  generator's parameters differ from those it came with.
\<close>

theorem rewrites_never_installed:
  assumes "rewrites' a \<noteq> []"
  shows "(\<exists>e. render_init a None = Inl e) \<and>
         (\<forall>d s0. render_init a (Some d) = Inr s0 \<longrightarrow>
            (\<forall>n ns. todo s0 = n # ns \<longrightarrow> main_step a s0 = Some (s0\<lparr>main := Raised TypeError\<rparr>)) \<and>
            (\<forall>sched s. exec a r sched s0 = Some s \<longrightarrow> gen_params s = named_parameters a))"
proof -
  obtain param transform modulation items where rw: "rewrites' a = (param, transform, modulation) # items"
    using assms by (cases "rewrites' a") auto
  have 1: "\<exists>e. render_init a None = Inl e"
    using rw by (auto simp: render_init_def split: sum.splits option.splits)
  have 2: "(\<forall>n ns. todo s0 = n # ns \<longrightarrow> main_step a s0 = Some (s0\<lparr>main := Raised TypeError\<rparr>)) \<and>
      (\<forall>sched s. exec a r sched s0 = Some s \<longrightarrow> gen_params s = named_parameters a)"
    if init: "render_init a (Some d) = Inr s0" for d s0
  proof -
    from init obtain rs ow' where
      s: "setup_rewrites (named_parameters a) (rewrites' a) (Some d) = Inr (rs, ow')"
      and rd: "rewrite_dict s0 = rs" and ow: "original_weights s0 = ow'" and m: "main s0 = Looping"
      and gp: "gen_params s0 = named_parameters a"
      by (auto simp: render_init_def split: sum.splits prod.splits)
    from setup_rewrites_result [OF s] rw obtain d' where
      rs: "rs = (param, ListObj [Function transform, TensorObj modulation]) #
          map (\<lambda>(param, transform, modulation). (param, ListObj [Function transform, TensorObj modulation])) items"
      and d': "ow' = Some d'" "param \<in> fst ` set d'"
      by auto
    have fails: "apply_rewrites rs ow' n params = Inl TypeError" for n params
      unfolding rs d'(1) using d'(2) by (rule apply_rewrites_list_fails)
    have "main_step a s0 = Some (s0\<lparr>main := Raised TypeError\<rparr>)" if "todo s0 = n # ns" for n ns
    proof -
      have "run_batch a s0 n = Inl TypeError" using fails rd ow by (simp add: run_batch_def)
      then show ?thesis using m that by (simp add: main_step_def)
    qed
    moreover have "gen_params s = named_parameters a" if "exec a r sched s0 = Some s" for sched s
    proof -
      have "\<forall>n params. \<exists>e. apply_rewrites rs ow' n params = Inl e" using fails by blast
      from exec_params [OF this that rd ow] gp show ?thesis by simp
    qed
    ultimately show ?thesis by blast
  qed
  show ?thesis using 1 2 by blast
qed

theorem rewrites_never_installed_witness:
  "rewrites' (example_args\<lparr>rewrites' := [(''w'', \<lambda>w n. w, [])]\<rparr>) \<noteq> [] \<and>
   render_init (example_args\<lparr>rewrites' := [(''w'', \<lambda>w n. w, [])]\<rparr>) None = Inl NameError \<and>
   (\<exists>s0. render_init (example_args\<lparr>rewrites' := [(''w'', \<lambda>w n. w, [])]\<rparr>) (Some []) = Inr s0 \<and>
      todo s0 = [0, 2] \<and>
      main_step (example_args\<lparr>rewrites' := [(''w'', \<lambda>w n. w, [])]\<rparr>) s0 = Some (s0\<lparr>main := Raised TypeError\<rparr>))"
proof -
  let ?a = "example_args\<lparr>rewrites' := [(''w'', \<lambda>w n. w, [])]\<rparr>"
  have h: "rewrites' ?a \<noteq> []" by simp
  have n: "render_init ?a None = Inl NameError"
    by (simp add: render_init_def example_args_def start_encoder_def Let_def)
  obtain s0 where s0: "render_init ?a (Some []) = Inr s0" and t: "todo s0 = [0, 2]"
    by (simp add: render_init_def example_args_def start_encoder_def Let_def setup_truncation_def
        py_range_def example_starts)
  from rewrites_never_installed [OF h, of blank_resize] s0 t
  have "main_step ?a s0 = Some (s0\<lparr>main := Raised TypeError\<rparr>)" by blast
  then show ?thesis using h n s0 t by blast
qed

end
